theory Spec2Isabelle
  imports Main
begin

section \<open>Values, property keys, errors\<close>

text \<open>
  JavaScript values as far as the container looks at them: \<open>undefined\<close> (the sentinel of a
  cache miss), \<open>null\<close> (the default scope name), strings, and objects known by their
  identity.
\<close>

datatype val = Undefined | Null | Str string | Obj nat

text \<open>A property key reaching the \<open>get\<close> trap of a Proxy is a string or a symbol.\<close>

datatype key = StringKey string | SymbolKey nat

text \<open>
  \<open>throwError\<close> raises an \<open>Error\<close> whose name is \<open>ResolveError\<close>; \<open>ServiceFactory.from\<close>
  and the conversion of a symbol to a string raise a \<open>TypeError\<close>; user code may throw
  any value.
\<close>

datatype error = ResolveError string | TypeError | Thrown val

type_synonym outcome = "error + val"

definition throwError :: "string \<Rightarrow> error + 'a" where
  "throwError message = Inl (ResolveError message)"

text \<open>The conversion to a string that a template literal applies to an interpolated value.\<close>

fun ToString :: "val \<Rightarrow> string" where
  "ToString Undefined = ''undefined''"
| "ToString Null = ''null''"
| "ToString (Str s) = s"
| "ToString (Obj n) = ''[object Object]''"

fun ToString_key :: "key \<Rightarrow> error + string" where
  "ToString_key (StringKey s) = Inr s"
| "ToString_key (SymbolKey n) = Inl TypeError"

section \<open>Factories\<close>

text \<open>
  A factory is user code that is handed the dependency context. What it can do to the
  container is read properties of that context; it sees the outcome of every read (so it
  may catch an error), may allocate objects, and ends by returning a value or throwing.
  A factory of this type makes finitely many reads along every run; user code that loops
  for ever is outside the model.
\<close>

datatype factory =
    Return val
  | Throw error
  | Get key "outcome \<Rightarrow> factory"
  | New "val \<Rightarrow> factory"

primrec bind_factory :: "factory \<Rightarrow> (val \<Rightarrow> factory) \<Rightarrow> factory" where
  "bind_factory (Return v) f = f v"
| "bind_factory (Throw e) f = Throw e"
| "bind_factory (Get k c) f = Get k (\<lambda>r. bind_factory (c r) f)"
| "bind_factory (New c) f = New (\<lambda>v. bind_factory (c v) f)"

fun is_object :: "val \<Rightarrow> bool" where
  "is_object (Obj n) = True"
| "is_object v = False"

text \<open>
  A registration target. For a function the model keeps what \<open>ServiceFactory.from\<close>
  inspects (whether \<open>target.prototype\<close> is defined, and the \<open>writable\<close> attribute of its
  own \<open>prototype\<close> property, if it has one) and its body, which is given \<open>this\<close>.
\<close>

datatype target =
    NotFunction val
  | Function (prototype_defined: bool) (prototype_writable: "bool option") (body: "val \<Rightarrow> factory")

text \<open>
  \<open>new target(context)\<close>: a fresh object is \<open>this\<close>; the result is that object unless the
  body returns an object of its own. A target that \<open>from\<close> returns as it is, is later
  called as \<open>create(context)\<close>, without a receiver: its \<open>this\<close> is \<open>undefined\<close>.
\<close>

definition new_target :: "(val \<Rightarrow> factory) \<Rightarrow> factory" where
  "new_target b = New (\<lambda>this. bind_factory (b this) (\<lambda>r. Return (if is_object r then r else this)))"

fun ServiceFactory_from :: "target \<Rightarrow> error + factory" where
  "ServiceFactory_from (NotFunction v) = Inl TypeError"
| "ServiceFactory_from (Function pd pw b) =
     Inr (if pd \<and> pw \<noteq> Some True then new_target b else b Undefined)"

section \<open>Registry and its builder\<close>

datatype lifetime = Singleton | Scoped | Transient

record descriptor =
  lifetime :: lifetime
  create :: factory

text \<open>A \<open>Map\<close> whose order of insertion is observable: an association list.\<close>

type_synonym descriptors = "(string \<times> descriptor) list"

fun Map_set :: "string \<Rightarrow> 'v \<Rightarrow> (string \<times> 'v) list \<Rightarrow> (string \<times> 'v) list" where
  "Map_set k v [] = [(k, v)]"
| "Map_set k v ((k', v') # m) = (if k' = k then (k, v) # m else (k', v') # Map_set k v m)"

definition add :: "string \<Rightarrow> factory \<Rightarrow> lifetime \<Rightarrow> descriptors \<Rightarrow> descriptors" where
  "add name cr lt b = Map_set name \<lparr>lifetime = lt, create = cr\<rparr> b"

definition addSingleton :: "string \<Rightarrow> target \<Rightarrow> descriptors \<Rightarrow> error + descriptors" where
  "addSingleton name t b =
     (case ServiceFactory_from t of Inl e \<Rightarrow> Inl e | Inr f \<Rightarrow> Inr (add name f Singleton b))"

definition addScoped :: "string \<Rightarrow> target \<Rightarrow> descriptors \<Rightarrow> error + descriptors" where
  "addScoped name t b =
     (case ServiceFactory_from t of Inl e \<Rightarrow> Inl e | Inr f \<Rightarrow> Inr (add name f Scoped b))"

definition addTransient :: "string \<Rightarrow> target \<Rightarrow> descriptors \<Rightarrow> error + descriptors" where
  "addTransient name t b =
     (case ServiceFactory_from t of Inl e \<Rightarrow> Inl e | Inr f \<Rightarrow> Inr (add name f Transient b))"

text \<open>
  The \<open>ServiceRegistry\<close> constructor runs the caller's build function on an empty builder
  and keeps the descriptors; an exception of the build function leaves no registry.
\<close>

definition ServiceRegistry :: "(descriptors \<Rightarrow> error + descriptors) \<Rightarrow> error + descriptors" where
  "ServiceRegistry build = build []"

definition names :: "descriptors \<Rightarrow> string list" where
  "names reg = map fst reg"

definition registry_get :: "descriptors \<Rightarrow> string \<Rightarrow> error + descriptor" where
  "registry_get reg name =
     (case map_of reg name of
        None \<Rightarrow> throwError (''Invalid service name: '' @ name)
      | Some d \<Rightarrow> Inr d)"

definition has :: "descriptors \<Rightarrow> string \<Rightarrow> bool" where
  "has reg name = (map_of reg name \<noteq> None)"

section \<open>Scope state\<close>

text \<open>
  The fields of a \<open>ServiceScope\<close> that belong to it alone: \<open>#retainedScoped\<close>, \<open>#path\<close>
  and the public \<open>name\<close>.
\<close>

record scope =
  retainedScoped :: "string \<rightharpoonup> val"
  path :: "string list"
  scope_name :: val

text \<open>
  What a call of \<open>resolve\<close> can read and write: the scope's own fields and
  \<open>#retainedSingleton\<close>, which is the provider's map. Two more fields observe the run:
  \<open>calls\<close> logs every invocation of a registered factory, \<open>allocated\<close> counts the objects
  created so far.
\<close>

record state = scope +
  retainedSingleton :: "string \<rightharpoonup> val"
  calls :: "string list"
  allocated :: nat

text \<open>\<open>Map.prototype.get\<close>: \<open>undefined\<close> for a missing key.\<close>

definition Map_get :: "(string \<rightharpoonup> val) \<Rightarrow> string \<Rightarrow> val" where
  "Map_get m k = (case m k of None \<Rightarrow> Undefined | Some v \<Rightarrow> v)"

fun lastIndexOf :: "string list \<Rightarrow> string \<Rightarrow> int" where
  "lastIndexOf [] x = - 1"
| "lastIndexOf (y # ys) x =
     (let i = lastIndexOf ys x in if i \<noteq> - 1 then i + 1 else if y = x then 0 else - 1)"

text \<open>The loop over \<open>index2\<close> that both error messages share.\<close>

fun mark_path :: "int \<Rightarrow> int \<Rightarrow> string list \<Rightarrow> string" where
  "mark_path index1 index2 [] = []"
| "mark_path index1 index2 (p # ps) =
     (if index1 = index2 then ''['' @ p @ '']'' else p) @ '' -> '' @ mark_path index1 (index2 + 1) ps"

definition throwErrorIfCircularReferenced :: "string \<Rightarrow> state \<Rightarrow> error + unit" where
  "throwErrorIfCircularReferenced name s =
     (let index1 = lastIndexOf (path s) name in
      if index1 \<noteq> - 1 then
        throwError
          ((if scope_name s = Null then ''/(unnamed)/ '' else ''/'' @ ToString (scope_name s) @ ''/ '')
           @ ''Invalid service resolution'' @ '': ''
           @ mark_path index1 0 (path s) @ ''['' @ name @ '']'')
      else Inr ())"

text \<open>
  The \<open>while (0 <= --index1)\<close> loop; the counter of the model is \<open>index1 + 1\<close>.
\<close>

fun lifetime_walk :: "descriptors \<Rightarrow> string \<Rightarrow> state \<Rightarrow> nat \<Rightarrow> error + unit" where
  "lifetime_walk reg name s 0 = Inr ()"
| "lifetime_walk reg name s (Suc index1) =
     (case registry_get reg (path s ! index1) of
        Inl e \<Rightarrow> Inl e
      | Inr d \<Rightarrow>
          if lifetime d = Singleton then
            throwError
              ((if scope_name s = Undefined then ''/(unnamed)/ '' else ''/'' @ ToString (scope_name s) @ ''/ '')
               @ ''Invalid service lifetime'' @ '': ''
               @ mark_path (int index1) 0 (path s) @ ''['' @ name @ '']'')
          else lifetime_walk reg name s index1)"

definition throwErrorIfLifetimeExceeded :: "descriptors \<Rightarrow> string \<Rightarrow> state \<Rightarrow> error + unit" where
  "throwErrorIfLifetimeExceeded reg name s = lifetime_walk reg name s (length (path s))"

section \<open>The resolution engine\<close>

text \<open>
  The exotic context given to \<open>createContext\<close>: \<open>None\<close> when the argument is
  \<open>undefined\<close>, otherwise the properties that \<open>name in exoticContext\<close> finds, with their
  values (data properties).
\<close>

type_synonym exotic = "(string \<rightharpoonup> val) option"

definition push :: "string \<Rightarrow> state \<Rightarrow> state" where
  "push name s = s\<lparr>path := path s @ [name]\<rparr>"

definition pop :: "state \<Rightarrow> state" where
  "pop s = s\<lparr>path := butlast (path s)\<rparr>"

definition invoked :: "string \<Rightarrow> state \<Rightarrow> state" where
  "invoked name s = s\<lparr>calls := calls s @ [name]\<rparr>"

text \<open>The \<open>finally\<close> block: the pop happens whatever the outcome of \<open>create\<close> is.\<close>

definition finally_pop :: "(outcome \<times> state) option \<Rightarrow> (outcome \<times> state) option" where
  "finally_pop r = map_option (\<lambda>(out, s). (out, pop s)) r"

text \<open>The \<open>set\<close> after the \<open>try\<close> statement is reached only when \<open>create\<close> returned.\<close>

fun set_singleton :: "string \<Rightarrow> outcome \<times> state \<Rightarrow> outcome \<times> state" where
  "set_singleton name (Inl e, s) = (Inl e, s)"
| "set_singleton name (Inr v, s) = (Inr v, s\<lparr>retainedSingleton := (retainedSingleton s)(name \<mapsto> v)\<rparr>)"

fun set_scoped :: "string \<Rightarrow> outcome \<times> state \<Rightarrow> outcome \<times> state" where
  "set_scoped name (Inl e, s) = (Inl e, s)"
| "set_scoped name (Inr v, s) = (Inr v, s\<lparr>retainedScoped := (retainedScoped s)(name \<mapsto> v)\<rparr>)"

text \<open>
  \<open>resolve\<close>, the \<open>get\<close> trap of the context (\<open>context_get\<close>) and the run of a factory
  call one another. The first argument bounds the number of nested calls; \<open>None\<close> means
  that the bound was too small, never a result of the program.

  The \<open>context\<close> argument of \<open>resolve\<close> is the Proxy itself, which is the same for every
  nested call; the model passes what determines it, the exotic context \<open>ex\<close>.

  In the trap, \<open>typeof name !== "string"\<close> holds for a symbol key and for no other key;
  the argument of \<open>throwError\<close>, a template literal, is evaluated before the call.
\<close>

fun resolve :: "nat \<Rightarrow> descriptors \<Rightarrow> exotic \<Rightarrow> string \<Rightarrow> state \<Rightarrow> (outcome \<times> state) option"
and context_get :: "nat \<Rightarrow> descriptors \<Rightarrow> exotic \<Rightarrow> key \<Rightarrow> state \<Rightarrow> (outcome \<times> state) option"
and run :: "nat \<Rightarrow> descriptors \<Rightarrow> exotic \<Rightarrow> factory \<Rightarrow> state \<Rightarrow> (outcome \<times> state) option"
where
  "resolve 0 reg ex name s = None"
| "resolve (Suc n) reg ex name s =
     (case throwErrorIfCircularReferenced name s of
        Inl e \<Rightarrow> Some (Inl e, s)
      | Inr _ \<Rightarrow>
         (case registry_get reg name of
            Inl e \<Rightarrow> Some (Inl e, s)
          | Inr d \<Rightarrow>
             (case lifetime d of
                Singleton \<Rightarrow>
                  if Map_get (retainedSingleton s) name = Undefined then
                    map_option (set_singleton name)
                      (finally_pop (run n reg ex (create d) (invoked name (push name s))))
                  else Some (Inr (Map_get (retainedSingleton s) name), s)
              | Scoped \<Rightarrow>
                  if Map_get (retainedScoped s) name = Undefined then
                    (case throwErrorIfLifetimeExceeded reg name s of
                       Inl e \<Rightarrow> Some (Inl e, s)
                     | Inr _ \<Rightarrow>
                         map_option (set_scoped name)
                           (finally_pop (run n reg ex (create d) (invoked name (push name s)))))
                  else Some (Inr (Map_get (retainedScoped s) name), s)
              | Transient \<Rightarrow>
                  finally_pop (run n reg ex (create d) (invoked name (push name s))))))"
| "context_get 0 reg ex k s = None"
| "context_get (Suc n) reg ex (SymbolKey i) s =
     (case ToString_key (SymbolKey i) of
        Inl e \<Rightarrow> Some (Inl e, s)
      | Inr str \<Rightarrow> Some (throwError (''Invalid service name: '' @ str), s))"
| "context_get (Suc n) reg ex (StringKey name) s =
     (if name = ''then'' then Some (Inr Undefined, s)
      else
        (case ex of
           None \<Rightarrow> resolve n reg ex name s
         | Some m \<Rightarrow>
            (case m name of
               Some v \<Rightarrow> Some (Inr v, s)
             | None \<Rightarrow> resolve n reg ex name s)))"
| "run 0 reg ex f s = None"
| "run (Suc n) reg ex (Return v) s = Some (Inr v, s)"
| "run (Suc n) reg ex (Throw e) s = Some (Inl e, s)"
| "run (Suc n) reg ex (Get k c) s =
     (case context_get n reg ex k s of
        None \<Rightarrow> None
      | Some (r, s') \<Rightarrow> run n reg ex (c r) s')"
| "run (Suc n) reg ex (New c) s =
     run n reg ex (c (Obj (allocated s))) (s\<lparr>allocated := Suc (allocated s)\<rparr>)"

section \<open>Provider, scopes and contexts\<close>

text \<open>
  A \<open>ServiceProvider\<close> with the scopes begun from it. The provider owns the registry and
  \<open>#retainedSingleton\<close>; every scope refers to that same map, which the model writes
  back to the provider after each use of a scope.
\<close>

record provider =
  registry :: descriptors
  provider_retainedSingleton :: "string \<rightharpoonup> val"
  scopes :: "scope list"
  provider_calls :: "string list"
  provider_allocated :: nat

definition ServiceProvider :: "descriptors \<Rightarrow> provider" where
  "ServiceProvider reg =
     \<lparr>registry = reg, provider_retainedSingleton = Map.empty, scopes = [],
      provider_calls = [], provider_allocated = 0\<rparr>"

definition createProvider :: "(descriptors \<Rightarrow> error + descriptors) \<Rightarrow> error + provider" where
  "createProvider build =
     (case ServiceRegistry build of Inl e \<Rightarrow> Inl e | Inr reg \<Rightarrow> Inr (ServiceProvider reg))"

definition ServiceScope :: scope where
  "ServiceScope = \<lparr>retainedScoped = Map.empty, path = [], scope_name = Null\<rparr>"

text \<open>\<open>beginScope\<close> returns the new scope, here its index among the provider's scopes.\<close>

definition beginScope :: "provider \<Rightarrow> nat \<times> provider" where
  "beginScope p = (length (scopes p), p\<lparr>scopes := scopes p @ [ServiceScope]\<rparr>)"

definition scope_state :: "provider \<Rightarrow> nat \<Rightarrow> state" where
  "scope_state p i =
     \<lparr>retainedScoped = retainedScoped (scopes p ! i), path = path (scopes p ! i),
      scope_name = scope_name (scopes p ! i),
      retainedSingleton = provider_retainedSingleton p,
      calls = provider_calls p, allocated = provider_allocated p\<rparr>"

definition write_back :: "nat \<Rightarrow> state \<Rightarrow> provider \<Rightarrow> provider" where
  "write_back i s p =
     p\<lparr>provider_retainedSingleton := retainedSingleton s,
       scopes := (scopes p)[i := \<lparr>retainedScoped = retainedScoped s, path = path s,
                                  scope_name = scope_name s\<rparr>],
       provider_calls := calls s, provider_allocated := allocated s\<rparr>"

text \<open>
  Reading property \<open>k\<close> of a context that scope \<open>i\<close> created with the exotic context
  \<open>ex\<close>. The caller holds a scope only after \<open>beginScope\<close>, so \<open>i\<close> is below the number
  of scopes.
\<close>

definition read :: "nat \<Rightarrow> nat \<Rightarrow> exotic \<Rightarrow> key \<Rightarrow> provider \<Rightarrow> (outcome \<times> provider) option" where
  "read n i ex k p =
     map_option (\<lambda>(r, s). (r, write_back i s p))
       (context_get n (registry p) ex k (scope_state p i))"

text \<open>
  A caller that reads one property after the other, each from a context of some scope,
  and goes on after an error.
\<close>

fun reads :: "nat \<Rightarrow> (nat \<times> exotic \<times> key) list \<Rightarrow> provider \<Rightarrow> (outcome list \<times> provider) option" where
  "reads n [] p = Some ([], p)"
| "reads n ((i, ex, k) # rest) p =
     (case read n i ex k p of
        None \<Rightarrow> None
      | Some (r, p') \<Rightarrow> map_option (\<lambda>(rs, p''). (r # rs, p'')) (reads n rest p'))"

section \<open>The context as a Proxy\<close>

text \<open>
  An ordinary object as far as enumeration looks at it: its own enumerable data
  properties, in order.
\<close>

type_synonym object = "(string \<times> val) list"

text \<open>
  The handler of a Proxy: the traps that reading and enumerating consult, each present or
  absent. The one \<open>get\<close> trap of the repository is the function literal in
  \<open>createContext\<close>, closed over \<open>exoticContext\<close> and the scope's \<open>resolve\<close>; it is
  \<open>context_get\<close>. An \<open>ownKeys\<close> trap returns the keys, a \<open>getOwnPropertyDescriptor\<close> trap
  tells whether a key is reported as an enumerable own property.
\<close>

datatype get_function = ContextGet exotic

record handler =
  trap_get :: "get_function option"
  trap_ownKeys :: "(object \<Rightarrow> string list) option"
  trap_getOwnPropertyDescriptor :: "(object \<Rightarrow> string \<Rightarrow> bool) option"

record proxy =
  proxy_target :: object
  proxy_handler :: handler

text \<open>\<open>createContext\<close>: \<open>new Proxy({}, { get(_, name) { ... } })\<close>.\<close>

definition createContext :: "exotic \<Rightarrow> proxy" where
  "createContext exoticContext =
     \<lparr>proxy_target = [],
      proxy_handler = \<lparr>trap_get = Some (ContextGet exoticContext), trap_ownKeys = None,
                       trap_getOwnPropertyDescriptor = None\<rparr>\<rparr>"

text \<open>
  The internal methods of a Proxy: a trap that is absent leaves the operation to the
  target.
\<close>

definition Proxy_OwnPropertyKeys :: "proxy \<Rightarrow> string list" where
  "Proxy_OwnPropertyKeys px =
     (case trap_ownKeys (proxy_handler px) of
        None \<Rightarrow> map fst (proxy_target px)
      | Some trap \<Rightarrow> trap (proxy_target px))"

definition Proxy_GetOwnProperty :: "proxy \<Rightarrow> string \<Rightarrow> bool" where
  "Proxy_GetOwnProperty px k =
     (case trap_getOwnPropertyDescriptor (proxy_handler px) of
        None \<Rightarrow> map_of (proxy_target px) k \<noteq> None
      | Some trap \<Rightarrow> trap (proxy_target px) k)"

fun object_get :: "object \<Rightarrow> key \<Rightarrow> val" where
  "object_get obj (StringKey k) = (case map_of obj k of None \<Rightarrow> Undefined | Some v \<Rightarrow> v)"
| "object_get obj (SymbolKey i) = Undefined"

definition Proxy_Get :: "nat \<Rightarrow> descriptors \<Rightarrow> proxy \<Rightarrow> key \<Rightarrow> state \<Rightarrow> (outcome \<times> state) option" where
  "Proxy_Get n reg px k s =
     (case trap_get (proxy_handler px) of
        None \<Rightarrow> Some (Inr (object_get (proxy_target px) k), s)
      | Some (ContextGet ex) \<Rightarrow> context_get n reg ex k s)"

text \<open>
  \<open>{...context}\<close> copies the data properties of the context: for each of its own keys that
  is reported as an enumerable own property the value is read. An exception of a read
  ends the copy.
\<close>

fun CopyDataProperties :: "nat \<Rightarrow> descriptors \<Rightarrow> proxy \<Rightarrow> string list \<Rightarrow> state \<Rightarrow>
    ((error + object) \<times> state) option" where
  "CopyDataProperties n reg px [] s = Some (Inr [], s)"
| "CopyDataProperties n reg px (k # ks) s =
     (if Proxy_GetOwnProperty px k then
        (case Proxy_Get n reg px (StringKey k) s of
           None \<Rightarrow> None
         | Some (Inl e, s') \<Rightarrow> Some (Inl e, s')
         | Some (Inr v, s') \<Rightarrow>
            (case CopyDataProperties n reg px ks s' of
               None \<Rightarrow> None
             | Some (Inl e, s'') \<Rightarrow> Some (Inl e, s'')
             | Some (Inr kvs, s'') \<Rightarrow> Some (Inr ((k, v) # kvs), s'')))
      else CopyDataProperties n reg px ks s)"

definition spread :: "nat \<Rightarrow> descriptors \<Rightarrow> proxy \<Rightarrow> state \<Rightarrow> ((error + object) \<times> state) option" where
  "spread n reg px s = CopyDataProperties n reg px (Proxy_OwnPropertyKeys px) s"

text \<open>
  A destructuring pattern \<open>const { a, b } = context\<close> reads the properties that it names,
  in order, whether the context reports them as its own or not.
\<close>

fun destructuring :: "nat \<Rightarrow> descriptors \<Rightarrow> proxy \<Rightarrow> string list \<Rightarrow> state \<Rightarrow>
    ((error + object) \<times> state) option" where
  "destructuring n reg px [] s = Some (Inr [], s)"
| "destructuring n reg px (k # ks) s =
     (case Proxy_Get n reg px (StringKey k) s of
        None \<Rightarrow> None
      | Some (Inl e, s') \<Rightarrow> Some (Inl e, s')
      | Some (Inr v, s') \<Rightarrow>
         (case destructuring n reg px ks s' of
            None \<Rightarrow> None
          | Some (Inl e, s'') \<Rightarrow> Some (Inl e, s'')
          | Some (Inr kvs, s'') \<Rightarrow> Some (Inr ((k, v) # kvs), s'')))"

section \<open>The service classes of the test suite\<close>

text \<open>
  A class whose constructor destructures the listed names from the context it is given,
  in order, and returns nothing: \<open>class B { constructor({ a }) { ... } }\<close>. An error of a
  read leaves the constructor as it came.
\<close>

fun destructure :: "string list \<Rightarrow> factory \<Rightarrow> factory" where
  "destructure [] f = f"
| "destructure (k # ks) f =
     Get (StringKey k) (\<lambda>r. case r of Inl e \<Rightarrow> Throw e | Inr v \<Rightarrow> destructure ks f)"

definition service_class :: "string list \<Rightarrow> target" where
  "service_class deps = Function True (Some False) (\<lambda>this. destructure deps (Return Undefined))"

definition A :: target where "A = service_class []"
definition B :: target where "B = service_class [''a'']"
definition C :: target where "C = service_class [''a'', ''b'']"

text \<open>A builder call in a chain: the chain ends at the first exception.\<close>

definition and_then :: "error + 'a \<Rightarrow> ('a \<Rightarrow> error + 'b) \<Rightarrow> error + 'b" where
  "and_then r f = (case r of Inl e \<Rightarrow> Inl e | Inr x \<Rightarrow> f x)"

section \<open>Notions used in the statements\<close>

text \<open>
  A resolution of \<open>name\<close> with lifetime \<open>lt\<close> goes on to construction: the cache of its
  lifetime holds nothing for it and, for a scoped service, the lifetime check passed.
\<close>

definition miss :: "descriptors \<Rightarrow> lifetime \<Rightarrow> string \<Rightarrow> state \<Rightarrow> bool" where
  "miss reg lt name s =
     (case lt of
        Singleton \<Rightarrow> Map_get (retainedSingleton s) name = Undefined
      | Scoped \<Rightarrow> Map_get (retainedScoped s) name = Undefined
                 \<and> throwErrorIfLifetimeExceeded reg name s = Inr ()
      | Transient \<Rightarrow> True)"

text \<open>The store after a construction that returned.\<close>

definition retain :: "lifetime \<Rightarrow> string \<Rightarrow> val \<Rightarrow> state \<Rightarrow> state" where
  "retain lt name v s =
     (case lt of
        Singleton \<Rightarrow> s\<lparr>retainedSingleton := (retainedSingleton s)(name \<mapsto> v)\<rparr>
      | Scoped \<Rightarrow> s\<lparr>retainedScoped := (retainedScoped s)(name \<mapsto> v)\<rparr>
      | Transient \<Rightarrow> s)"

text \<open>
  A relation between the state before and the state after that every step of the engine
  keeps: it holds of a state and itself, composes along steps that leave the path alone,
  holds across an allocation, and holds across a construction (push, run of the factory,
  pop, store) whenever it holds across the run of the factory.
\<close>

definition preserved :: "descriptors \<Rightarrow> (state \<Rightarrow> state \<Rightarrow> bool) \<Rightarrow> bool" where
  "preserved reg P \<longleftrightarrow>
     (\<forall>s. P s s) \<and>
     (\<forall>s s1 s2. P s s1 \<and> path s1 = path s \<and> P s1 s2 \<longrightarrow> P s s2) \<and>
     (\<forall>s. P s (s\<lparr>allocated := Suc (allocated s)\<rparr>)) \<and>
     (\<forall>name d s s1 fin. name \<notin> set (path s) \<and> map_of reg name = Some d \<and>
        miss reg (lifetime d) name s \<and> P (invoked name (push name s)) s1 \<and>
        path s1 = path s @ [name] \<and>
        (fin = pop s1 \<or> (\<exists>v. fin = retain (lifetime d) name v (pop s1))) \<longrightarrow> P s fin)"

text \<open>A resolution that goes on to construction.\<close>

definition constructs :: "descriptors \<Rightarrow> string \<Rightarrow> state \<Rightarrow> bool" where
  "constructs reg name s \<longleftrightarrow>
     name \<notin> set (path s) \<and> (\<exists>d. map_of reg name = Some d \<and> miss reg (lifetime d) name s)"

text \<open>Between two reads of the caller no scope of the provider is resolving anything.\<close>

definition at_rest :: "provider \<Rightarrow> bool" where
  "at_rest p \<longleftrightarrow> list_all (\<lambda>sc. path sc = []) (scopes p)"

section \<open>Example registries and states\<close>

text \<open>A descriptor as the builder records it for a target that is a function.\<close>

definition descriptor_of :: "lifetime \<Rightarrow> target \<Rightarrow> descriptor" where
  "descriptor_of lt t =
     \<lparr>lifetime = lt, create = (case ServiceFactory_from t of Inl e \<Rightarrow> Throw e | Inr f \<Rightarrow> f)\<rparr>"

text \<open>The state of a new scope of a new provider.\<close>

definition new_state :: state where
  "new_state =
     \<lparr>retainedScoped = Map.empty, path = [], scope_name = Null,
      retainedSingleton = Map.empty, calls = [], allocated = 0\<rparr>"

text \<open>The registry of the mixed-lifetime tests: singleton \<open>a\<close>, scoped \<open>b\<close>, transient \<open>c\<close>.\<close>

definition mixed_registry :: descriptors where
  "mixed_registry =
     [(''a'', descriptor_of Singleton A), (''b'', descriptor_of Scoped B),
      (''c'', descriptor_of Transient C)]"

text \<open>A singleton \<open>s\<close> whose constructor reads the transient \<open>t\<close> and the singleton \<open>u\<close>.\<close>

definition singleton_over_transient :: descriptors where
  "singleton_over_transient =
     [(''s'', descriptor_of Singleton (service_class [''t'', ''u''])),
      (''t'', descriptor_of Transient (service_class [])),
      (''u'', descriptor_of Singleton (service_class []))]"

text \<open>A singleton \<open>s\<close> that reaches the scoped \<open>x\<close> through the transient \<open>t\<close>.\<close>

definition singleton_over_scoped :: descriptors where
  "singleton_over_scoped =
     [(''s'', descriptor_of Singleton (service_class [''t''])),
      (''t'', descriptor_of Transient (service_class [''x''])),
      (''x'', descriptor_of Scoped (service_class []))]"

text \<open>A cycle \<open>a\<close>, \<open>b\<close>, \<open>a\<close>, a service that depends on itself, and an unrelated service.\<close>

definition cyclic_registry :: descriptors where
  "cyclic_registry =
     [(''a'', descriptor_of Scoped (service_class [''b''])),
      (''b'', descriptor_of Transient (service_class [''a''])),
      (''self'', descriptor_of Singleton (service_class [''self''])),
      (''c'', descriptor_of Scoped (service_class []))]"

text \<open>Factories that throw, and factories that return \<open>undefined\<close>.\<close>

definition arrow_function :: "factory \<Rightarrow> target" where
  "arrow_function f = Function False None (\<lambda>this. f)"

definition failing_registry :: descriptors where
  "failing_registry =
     [(''f'', descriptor_of Singleton (arrow_function (Throw (Thrown (Str ''boom''))))),
      (''g'', descriptor_of Scoped (service_class [''f''])),
      (''h'', descriptor_of Transient (arrow_function (Throw (Thrown (Str ''boom'')))))]"

definition undefined_registry :: descriptors where
  "undefined_registry =
     [(''n'', descriptor_of Singleton (arrow_function (Return Undefined))),
      (''m'', descriptor_of Scoped (arrow_function (Return Undefined))),
      (''k'', descriptor_of Transient (arrow_function (Return (Str ''shared''))))]"

text \<open>A provider from which two scopes were begun.\<close>

definition two_scopes :: "descriptors \<Rightarrow> provider" where
  "two_scopes reg = snd (beginScope (snd (beginScope (ServiceProvider reg))))"



section \<open>Basic facts about the engine\<close>

lemma lastIndexOf_ge: "- 1 \<le> lastIndexOf xs x"
  by (induction xs) (auto simp: Let_def)

lemma lastIndexOf_absent: "lastIndexOf xs x = - 1 \<longleftrightarrow> x \<notin> set xs"
proof (induction xs)
  case Nil
  show ?case by simp
next
  case (Cons y ys)
  have "- 1 \<le> lastIndexOf ys x" by (rule lastIndexOf_ge)
  then have "lastIndexOf ys x + 1 \<noteq> - 1" by arith
  with Cons show ?case by (auto simp: Let_def)
qed

lemma circular_Inr: "throwErrorIfCircularReferenced name s = Inr u \<longleftrightarrow> name \<notin> set (path s)"
  by (simp add: throwErrorIfCircularReferenced_def Let_def lastIndexOf_absent throwError_def)

lemma registry_get_Inr: "registry_get reg name = Inr d \<longleftrightarrow> map_of reg name = Some d"
  by (simp add: registry_get_def throwError_def split: option.splits)

lemma resolve_Suc_cases:
  assumes "resolve (Suc n) reg ex name s = Some (r, s')"
  obtains
    (circular) e where "name \<in> set (path s)" "throwErrorIfCircularReferenced name s = Inl e"
      "r = Inl e" "s' = s"
  | (unregistered) e where "name \<notin> set (path s)" "registry_get reg name = Inl e"
      "r = Inl e" "s' = s"
  | (hit_singleton) d where "name \<notin> set (path s)" "map_of reg name = Some d"
      "lifetime d = Singleton" "Map_get (retainedSingleton s) name \<noteq> Undefined"
      "r = Inr (Map_get (retainedSingleton s) name)" "s' = s"
  | (hit_scoped) d where "name \<notin> set (path s)" "map_of reg name = Some d"
      "lifetime d = Scoped" "Map_get (retainedScoped s) name \<noteq> Undefined"
      "r = Inr (Map_get (retainedScoped s) name)" "s' = s"
  | (exceeded) d e where "name \<notin> set (path s)" "map_of reg name = Some d"
      "lifetime d = Scoped" "Map_get (retainedScoped s) name = Undefined"
      "throwErrorIfLifetimeExceeded reg name s = Inl e" "r = Inl e" "s' = s"
  | (thrown) d e s1 where "name \<notin> set (path s)" "map_of reg name = Some d"
      "miss reg (lifetime d) name s"
      "run n reg ex (create d) (invoked name (push name s)) = Some (Inl e, s1)"
      "r = Inl e" "s' = pop s1"
  | (created) d v s1 where "name \<notin> set (path s)" "map_of reg name = Some d"
      "miss reg (lifetime d) name s"
      "run n reg ex (create d) (invoked name (push name s)) = Some (Inr v, s1)"
      "r = Inr v" "s' = retain (lifetime d) name v (pop s1)"
proof (cases "name \<in> set (path s)")
  case True
  then obtain e where e: "throwErrorIfCircularReferenced name s = Inl e"
    using circular_Inr[of name s] by (cases "throwErrorIfCircularReferenced name s") auto
  with assms True show ?thesis by (intro circular[of e]) auto
next
  case False
  then have c: "throwErrorIfCircularReferenced name s = Inr ()"
    by (simp add: circular_Inr)
  show ?thesis
  proof (cases "registry_get reg name")
    case (Inl e)
    with assms c False show ?thesis by (intro unregistered[of e]) auto
  next
    case (Inr d)
    then have m: "map_of reg name = Some d" by (simp add: registry_get_Inr)
    show ?thesis
    proof (cases "miss reg (lifetime d) name s")
      case True
      then have eq: "resolve (Suc n) reg ex name s =
          map_option (\<lambda>(out, s1). case out of Inl e \<Rightarrow> (Inl e, pop s1)
             | Inr v \<Rightarrow> (Inr v, retain (lifetime d) name v (pop s1)))
            (run n reg ex (create d) (invoked name (push name s)))"
        using c Inr
        by (cases "run n reg ex (create d) (invoked name (push name s))"; cases "lifetime d")
           (auto simp: miss_def retain_def finally_pop_def pop_def split: sum.splits)
      from assms obtain out s1 where
        run: "run n reg ex (create d) (invoked name (push name s)) = Some (out, s1)"
        unfolding eq by (cases "run n reg ex (create d) (invoked name (push name s))") auto
      show ?thesis
      proof (cases out)
        case (Inl e)
        with assms run show ?thesis unfolding eq
          by (intro thrown[of d e s1]) (use False m True in auto)
      next
        case (Inr v)
        with assms run show ?thesis unfolding eq
          by (intro created[of d v s1]) (use False m True in auto)
      qed
    next
      case nomiss: False
      show ?thesis
      proof (cases "lifetime d")
        case Singleton
        with nomiss assms c Inr show ?thesis
          by (intro hit_singleton[of d]) (use False m in \<open>auto simp: miss_def\<close>)
      next
        case Scoped
        show ?thesis
        proof (cases "Map_get (retainedScoped s) name = Undefined")
          case True
          with nomiss Scoped obtain e where "throwErrorIfLifetimeExceeded reg name s = Inl e"
            by (cases "throwErrorIfLifetimeExceeded reg name s") (auto simp: miss_def)
          with True assms c Inr Scoped show ?thesis
            by (intro exceeded[of d e]) (use False m in auto)
        next
          case False
          with assms c Inr Scoped show ?thesis
            by (intro hit_scoped[of d]) (use \<open>name \<notin> set (path s)\<close> m in auto)
        qed
      next
        case Transient
        with nomiss show ?thesis by (simp add: miss_def)
      qed
    qed
  qed
qed


lemma resolve_construct:
  assumes "name \<notin> set (path s)" and "map_of reg name = Some d"
    and "miss reg (lifetime d) name s"
  shows "resolve (Suc n) reg ex name s =
     map_option (\<lambda>(out, s1). case out of Inl e \<Rightarrow> (Inl e, pop s1)
          | Inr v \<Rightarrow> (Inr v, retain (lifetime d) name v (pop s1)))
       (run n reg ex (create d) (invoked name (push name s)))"
proof -
  from assms(1) have "throwErrorIfCircularReferenced name s = Inr ()"
    by (simp add: circular_Inr)
  moreover from assms(2) have "registry_get reg name = Inr d"
    by (simp add: registry_get_Inr)
  ultimately show ?thesis using assms(3)
    by (cases "run n reg ex (create d) (invoked name (push name s))"; cases "lifetime d")
       (auto simp: miss_def retain_def finally_pop_def pop_def split: sum.splits)
qed



lemma context_get_Suc_cases:
  assumes "context_get (Suc n) reg ex k s = Some (r, s')"
  obtains
    (symbol) i where "k = SymbolKey i" "r = Inl TypeError" "s' = s"
  | (reserved) "k = StringKey ''then''" "r = Inr Undefined" "s' = s"
  | (exotic) name m v where "k = StringKey name" "name \<noteq> ''then''" "ex = Some m" "m name = Some v"
      "r = Inr v" "s' = s"
  | (resolved) name where "k = StringKey name" "name \<noteq> ''then''"
      "\<forall>m. ex = Some m \<longrightarrow> m name = None"
      "resolve n reg ex name s = Some (r, s')"
  using assms by (cases k) (auto split: if_splits option.splits)

lemma run_Suc_cases:
  assumes "run (Suc n) reg ex f s = Some (r, s')"
  obtains
    (returned) v where "f = Return v" "r = Inr v" "s' = s"
  | (threw) e where "f = Throw e" "r = Inl e" "s' = s"
  | (read) k c r1 s1 where "f = Get k c" "context_get n reg ex k s = Some (r1, s1)"
      "run n reg ex (c r1) s1 = Some (r, s')"
  | (allocated) c where "f = New c"
      "run n reg ex (c (Obj (allocated s))) (s\<lparr>allocated := Suc (allocated s)\<rparr>) = Some (r, s')"
  using assms by (cases f) (auto split: option.splits)

lemma path_retain [simp]: "path (retain lt name v s) = path s"
  by (cases lt) (simp_all add: retain_def)

lemma scope_name_retain [simp]: "scope_name (retain lt name v s) = scope_name s"
  by (cases lt) (simp_all add: retain_def)

lemma path_scope_name_preserved_aux:
  "(\<forall>name s r s'. resolve n reg ex name s = Some (r, s') \<longrightarrow>
      path s' = path s \<and> scope_name s' = scope_name s) \<and>
   (\<forall>k s r s'. context_get n reg ex k s = Some (r, s') \<longrightarrow>
      path s' = path s \<and> scope_name s' = scope_name s) \<and>
   (\<forall>f s r s'. run n reg ex f s = Some (r, s') \<longrightarrow>
      path s' = path s \<and> scope_name s' = scope_name s)"
proof (induction n)
  case 0
  show ?case by simp
next
  case (Suc n)
  have res: "path s' = path s \<and> scope_name s' = scope_name s"
    if "resolve (Suc n) reg ex name s = Some (r, s')" for name s r s'
    using that
  proof (cases rule: resolve_Suc_cases)
    case (thrown d e s1)
    with Suc have "path s1 = path s @ [name] \<and> scope_name s1 = scope_name s"
      by (fastforce simp: invoked_def push_def)
    with thrown show ?thesis by (simp add: pop_def)
  next
    case (created d v s1)
    with Suc have "path s1 = path s @ [name] \<and> scope_name s1 = scope_name s"
      by (fastforce simp: invoked_def push_def)
    with created show ?thesis by (simp add: pop_def)
  qed simp_all
  have ctx: "path s' = path s \<and> scope_name s' = scope_name s"
    if "context_get (Suc n) reg ex k s = Some (r, s')" for k s r s'
    using that
  proof (cases rule: context_get_Suc_cases)
    case (resolved name)
    with Suc show ?thesis by blast
  qed simp_all
  have rn: "path s' = path s \<and> scope_name s' = scope_name s"
    if "run (Suc n) reg ex f s = Some (r, s')" for f s r s'
    using that
  proof (cases rule: run_Suc_cases)
    case (read k c r1 s1)
    with Suc have "path s1 = path s \<and> scope_name s1 = scope_name s"
      and "path s' = path s1 \<and> scope_name s' = scope_name s1" by blast+
    then show ?thesis by simp
  next
    case (allocated c)
    with Suc have "path s' = path (s\<lparr>allocated := Suc (allocated s)\<rparr>)
        \<and> scope_name s' = scope_name (s\<lparr>allocated := Suc (allocated s)\<rparr>)" by blast
    then show ?thesis by simp
  qed simp_all
  from res ctx rn show ?case by blast
qed

lemma resolve_path: "resolve n reg ex name s = Some (r, s') \<Longrightarrow> path s' = path s"
  and context_get_path: "context_get n reg ex k s = Some (r, s') \<Longrightarrow> path s' = path s"
  and run_path: "run n reg ex f s = Some (r, s') \<Longrightarrow> path s' = path s"
  using path_scope_name_preserved_aux[of n reg ex] by blast+

lemma preservedI:
  assumes "\<And>s. P s s"
    and "\<And>s s1 s2. P s s1 \<Longrightarrow> path s1 = path s \<Longrightarrow> P s1 s2 \<Longrightarrow> P s s2"
    and "\<And>s. P s (s\<lparr>allocated := Suc (allocated s)\<rparr>)"
    and "\<And>name d s s1 fin. name \<notin> set (path s) \<Longrightarrow> map_of reg name = Some d \<Longrightarrow>
        miss reg (lifetime d) name s \<Longrightarrow> P (invoked name (push name s)) s1 \<Longrightarrow>
        path s1 = path s @ [name] \<Longrightarrow>
        fin = pop s1 \<or> (\<exists>v. fin = retain (lifetime d) name v (pop s1)) \<Longrightarrow> P s fin"
  shows "preserved reg P"
  unfolding preserved_def using assms by blast

lemma engine_relation_aux:
  assumes pres: "preserved reg P"
  shows "(\<forall>name s r s'. resolve n reg ex name s = Some (r, s') \<longrightarrow> P s s') \<and>
   (\<forall>k s r s'. context_get n reg ex k s = Some (r, s') \<longrightarrow> P s s') \<and>
   (\<forall>f s r s'. run n reg ex f s = Some (r, s') \<longrightarrow> P s s')"
proof (induction n)
  case 0
  show ?case by simp
next
  case (Suc n)
  from pres have refl: "\<And>s. P s s"
    and trans: "\<And>s s1 s2. P s s1 \<Longrightarrow> path s1 = path s \<Longrightarrow> P s1 s2 \<Longrightarrow> P s s2"
    and alloc: "\<And>s. P s (s\<lparr>allocated := Suc (allocated s)\<rparr>)"
    and construct: "\<And>name d s s1 fin. name \<notin> set (path s) \<Longrightarrow> map_of reg name = Some d \<Longrightarrow>
        miss reg (lifetime d) name s \<Longrightarrow> P (invoked name (push name s)) s1 \<Longrightarrow>
        path s1 = path s @ [name] \<Longrightarrow>
        fin = pop s1 \<or> (\<exists>v. fin = retain (lifetime d) name v (pop s1)) \<Longrightarrow> P s fin"
    unfolding preserved_def by blast+
  have res: "P s s'" if "resolve (Suc n) reg ex name s = Some (r, s')" for name s r s'
    using that
  proof (cases rule: resolve_Suc_cases)
    case (thrown d e s1)
    from thrown(4) Suc have "P (invoked name (push name s)) s1" by blast
    moreover from thrown(4) have "path s1 = path s @ [name]"
      by (simp add: run_path invoked_def push_def)
    ultimately show ?thesis using thrown construct[of name s d s1 s'] by blast
  next
    case (created d v s1)
    from created(4) Suc have "P (invoked name (push name s)) s1" by blast
    moreover from created(4) have "path s1 = path s @ [name]"
      by (simp add: run_path invoked_def push_def)
    ultimately show ?thesis using created construct[of name s d s1 s'] by blast
  qed (simp_all add: refl)
  have ctx: "P s s'" if "context_get (Suc n) reg ex k s = Some (r, s')" for k s r s'
    using that
  proof (cases rule: context_get_Suc_cases)
    case (resolved name)
    with Suc show ?thesis by blast
  qed (simp_all add: refl)
  have rn: "P s s'" if "run (Suc n) reg ex f s = Some (r, s')" for f s r s'
    using that
  proof (cases rule: run_Suc_cases)
    case (read k c r1 s1)
    with Suc have "P s s1" "P s1 s'" by blast+
    moreover from read have "path s1 = path s" by (simp add: context_get_path)
    ultimately show ?thesis using trans[of s s1 s'] by blast
  next
    case (allocated c)
    with Suc have "P (s\<lparr>allocated := Suc (allocated s)\<rparr>) s'" by blast
    with alloc[of s] show ?thesis
      using trans[of s "s\<lparr>allocated := Suc (allocated s)\<rparr>" s'] by simp
  qed (simp_all add: refl)
  from res ctx rn show ?case by blast
qed

lemma resolve_relation:
  "preserved reg P \<Longrightarrow> resolve n reg ex name s = Some (r, s') \<Longrightarrow> P s s'"
  using engine_relation_aux[of reg P n ex] by blast

lemma context_get_relation:
  "preserved reg P \<Longrightarrow> context_get n reg ex k s = Some (r, s') \<Longrightarrow> P s s'"
  using engine_relation_aux[of reg P n ex] by blast

lemma run_relation:
  "preserved reg P \<Longrightarrow> run n reg ex f s = Some (r, s') \<Longrightarrow> P s s'"
  using engine_relation_aux[of reg P n ex] by blast

section \<open>What every step of the engine keeps\<close>

lemma calls_retain [simp]: "calls (retain lt name v s) = calls s"
  by (cases lt) (simp_all add: retain_def)

lemma allocated_retain [simp]: "allocated (retain lt name v s) = allocated s"
  by (cases lt) (simp_all add: retain_def)

lemma retainedSingleton_retain:
  "retainedSingleton (retain lt name v s) =
     (if lt = Singleton then (retainedSingleton s)(name \<mapsto> v) else retainedSingleton s)"
  by (cases lt) (simp_all add: retain_def)

lemma retainedScoped_retain:
  "retainedScoped (retain lt name v s) =
     (if lt = Scoped then (retainedScoped s)(name \<mapsto> v) else retainedScoped s)"
  by (cases lt) (simp_all add: retain_def)

lemma pop_simps [simp]:
  "calls (pop s) = calls s" "allocated (pop s) = allocated s"
  "retainedSingleton (pop s) = retainedSingleton s" "retainedScoped (pop s) = retainedScoped s"
  "scope_name (pop s) = scope_name s" "path (pop s) = butlast (path s)"
  by (simp_all add: pop_def)

lemma push_simps [simp]:
  "calls (push name s) = calls s" "allocated (push name s) = allocated s"
  "retainedSingleton (push name s) = retainedSingleton s"
  "retainedScoped (push name s) = retainedScoped s"
  "scope_name (push name s) = scope_name s" "path (push name s) = path s @ [name]"
  by (simp_all add: push_def)

lemma invoked_simps [simp]:
  "calls (invoked name s) = calls s @ [name]" "allocated (invoked name s) = allocated s"
  "retainedSingleton (invoked name s) = retainedSingleton s"
  "retainedScoped (invoked name s) = retainedScoped s"
  "scope_name (invoked name s) = scope_name s" "path (invoked name s) = path s"
  by (simp_all add: invoked_def)



text \<open>While a name is on the path its factory is not invoked.\<close>

lemma preserved_calls_on_path:
  "preserved reg (\<lambda>s s'. x \<in> set (path s) \<longrightarrow>
     count_list (calls s') x = count_list (calls s) x)"
proof (rule preservedI, goal_cases)
  case (4 name d s s1 fin)
  then show ?case by auto
qed simp_all

text \<open>A cache is written only under a name of its own lifetime.\<close>

lemma preserved_singleton_frame:
  assumes "\<And>d. map_of reg x = Some d \<Longrightarrow> lifetime d \<noteq> Singleton"
  shows "preserved reg (\<lambda>s s'. retainedSingleton s' x = retainedSingleton s x)"
proof (rule preservedI, goal_cases)
  case (4 name d s s1 fin)
  with assms[of d] show ?case by (auto simp: retainedSingleton_retain)
qed simp_all

lemma preserved_scoped_frame:
  assumes "\<And>d. map_of reg x = Some d \<Longrightarrow> lifetime d \<noteq> Scoped"
  shows "preserved reg (\<lambda>s s'. retainedScoped s' x = retainedScoped s x)"
proof (rule preservedI, goal_cases)
  case (4 name d s s1 fin)
  with assms[of d] show ?case by (auto simp: retainedScoped_retain)
qed simp_all

text \<open>The log of invocations and the count of objects only grow.\<close>

lemma preserved_calls_grow:
  "preserved reg (\<lambda>s s'. \<exists>cs. calls s' = calls s @ cs)"
proof (rule preservedI, goal_cases)
  case (4 name d s s1 fin)
  then show ?case by auto
qed auto

lemma preserved_allocated_grow:
  "preserved reg (\<lambda>s s'. allocated s \<le> allocated s')"
proof (rule preservedI, goal_cases)
  case (4 name d s s1 fin)
  then show ?case by auto
qed auto

section \<open>The two error messages\<close>

lemma lastIndexOf_last:
  "x \<notin> set ys \<Longrightarrow> lastIndexOf (xs @ x # ys) x = int (length xs)"
proof (induction xs)
  case Nil
  then show ?case by (simp add: Let_def lastIndexOf_absent[THEN iffD2])
next
  case (Cons a xs)
  then show ?case by (simp add: Let_def)
qed

lemma mark_path_unmarked:
  "index1 < index2 \<Longrightarrow> mark_path index1 index2 ps = concat (map (\<lambda>p. p @ '' -> '') ps)"
  by (induction ps arbitrary: index2) simp_all

lemma mark_path_marked:
  "mark_path (index2 + int (length xs)) index2 (xs @ p # ys) =
     concat (map (\<lambda>p. p @ '' -> '') xs) @ ''['' @ p @ ''] -> '' @ concat (map (\<lambda>p. p @ '' -> '') ys)"
proof (induction xs arbitrary: index2)
  case Nil
  show ?case by (simp add: mark_path_unmarked)
next
  case (Cons a xs)
  have e: "index2 + int (length (a # xs)) = (index2 + 1) + int (length xs)" by simp
  have ne: "index2 + 1 + int (length xs) \<noteq> index2" by simp
  have "mark_path (index2 + 1 + int (length xs)) index2 ((a # xs) @ p # ys)
      = a @ '' -> '' @ mark_path (index2 + 1 + int (length xs)) (index2 + 1) (xs @ p # ys)"
    using ne by simp
  then show ?case unfolding e using Cons[of "index2 + 1"] by simp
qed

lemma circular_message:
  assumes "path s = xs @ name # ys" "name \<notin> set ys"
  shows "throwErrorIfCircularReferenced name s =
     Inl (ResolveError
       ((if scope_name s = Null then ''/(unnamed)/ '' else ''/'' @ ToString (scope_name s) @ ''/ '')
        @ ''Invalid service resolution: ''
        @ concat (map (\<lambda>p. p @ '' -> '') xs) @ ''['' @ name @ ''] -> ''
        @ concat (map (\<lambda>p. p @ '' -> '') ys) @ ''['' @ name @ '']''))"
proof -
  have "lastIndexOf (path s) name = int (length xs)"
    using assms by (simp add: lastIndexOf_last)
  moreover have "mark_path (int (length xs)) 0 (path s) =
      concat (map (\<lambda>p. p @ '' -> '') xs) @ ''['' @ name @ ''] -> '' @ concat (map (\<lambda>p. p @ '' -> '') ys)"
    using mark_path_marked[of 0 xs name ys] assms by simp
  ultimately show ?thesis
    by (simp add: throwErrorIfCircularReferenced_def throwError_def Let_def)
qed

lemma lifetime_walk_nonsingleton:
  assumes "path s = xs @ ys @ zs"
    and "\<forall>y \<in> set ys. \<exists>d. map_of reg y = Some d \<and> lifetime d \<noteq> Singleton"
  shows "lifetime_walk reg name s (length xs + length ys) = lifetime_walk reg name s (length xs)"
  using assms
proof (induction ys arbitrary: zs rule: rev_induct)
  case Nil
  show ?case by simp
next
  case (snoc y ys)
  from snoc.prems obtain d where d: "map_of reg y = Some d" "lifetime d \<noteq> Singleton" by auto
  have at: "path s ! (length xs + length ys) = y" using snoc.prems(1)
    by (simp add: nth_append)
  have "lifetime_walk reg name s (length xs + length (ys @ [y]))
      = lifetime_walk reg name s (Suc (length xs + length ys))" by simp
  also have "\<dots> = lifetime_walk reg name s (length xs + length ys)"
    using d at by (simp add: registry_get_def)
  also have "\<dots> = lifetime_walk reg name s (length xs)"
    using snoc.IH[of "y # zs"] snoc.prems by simp
  finally show ?case .
qed

lemma lifetime_message:
  assumes p: "path s = xs @ p # ys"
    and sing: "map_of reg p = Some dp" "lifetime dp = Singleton"
    and rest: "\<forall>y \<in> set ys. \<exists>d. map_of reg y = Some d \<and> lifetime d \<noteq> Singleton"
  shows "throwErrorIfLifetimeExceeded reg name s =
     Inl (ResolveError
       ((if scope_name s = Undefined then ''/(unnamed)/ '' else ''/'' @ ToString (scope_name s) @ ''/ '')
        @ ''Invalid service lifetime: ''
        @ concat (map (\<lambda>p. p @ '' -> '') xs) @ ''['' @ p @ ''] -> ''
        @ concat (map (\<lambda>p. p @ '' -> '') ys) @ ''['' @ name @ '']''))"
proof -
  have "throwErrorIfLifetimeExceeded reg name s
      = lifetime_walk reg name s (length (xs @ [p]) + length ys)"
    using p by (simp add: throwErrorIfLifetimeExceeded_def)
  also have "\<dots> = lifetime_walk reg name s (length (xs @ [p]))"
    using p rest by (intro lifetime_walk_nonsingleton[where zs = "[]"]) simp_all
  also have "\<dots> = lifetime_walk reg name s (Suc (length xs))" by simp
  finally have walk: "throwErrorIfLifetimeExceeded reg name s
      = lifetime_walk reg name s (Suc (length xs))" .
  have at: "path s ! length xs = p" using p by simp
  have "mark_path (int (length xs)) 0 (path s) =
      concat (map (\<lambda>p. p @ '' -> '') xs) @ ''['' @ p @ ''] -> '' @ concat (map (\<lambda>p. p @ '' -> '') ys)"
    using mark_path_marked[of 0 xs p ys] p by simp
  with walk at sing show ?thesis
    by (simp add: registry_get_def throwError_def)
qed


section \<open>Every call returns\<close>

lemma resolve_immediate:
  assumes "\<not> constructs reg name s"
  shows "\<exists>r. \<forall>n. resolve (Suc n) reg ex name s = Some (r, s)"
proof (cases "name \<in> set (path s)")
  case True
  then obtain e where "throwErrorIfCircularReferenced name s = Inl e"
    using circular_Inr[of name s] by (cases "throwErrorIfCircularReferenced name s") auto
  then show ?thesis by auto
next
  case False
  then have c: "throwErrorIfCircularReferenced name s = Inr ()" by (simp add: circular_Inr)
  show ?thesis
  proof (cases "registry_get reg name")
    case (Inl e)
    with c show ?thesis by auto
  next
    case (Inr d)
    then have "map_of reg name = Some d" by (simp add: registry_get_Inr)
    with assms False have nm: "\<not> miss reg (lifetime d) name s" by (auto simp: constructs_def)
    show ?thesis
    proof (cases "lifetime d")
      case Singleton
      with nm c Inr show ?thesis by (auto simp: miss_def)
    next
      case Scoped
      with nm c Inr show ?thesis
        by (cases "throwErrorIfLifetimeExceeded reg name s") (auto simp: miss_def)
    next
      case Transient
      with nm show ?thesis by (simp add: miss_def)
    qed
  qed
qed

lemma fuel_mono_aux:
  "(\<forall>name s r s'. resolve n reg ex name s = Some (r, s') \<longrightarrow>
      resolve (n + j) reg ex name s = Some (r, s')) \<and>
   (\<forall>k s r s'. context_get n reg ex k s = Some (r, s') \<longrightarrow>
      context_get (n + j) reg ex k s = Some (r, s')) \<and>
   (\<forall>f s r s'. run n reg ex f s = Some (r, s') \<longrightarrow> run (n + j) reg ex f s = Some (r, s'))"
proof (induction n)
  case 0
  show ?case by simp
next
  case (Suc n)
  have res: "resolve (Suc n + j) reg ex name s = Some (r, s')"
    if a: "resolve (Suc n) reg ex name s = Some (r, s')" for name s r s'
  proof (cases "constructs reg name s")
    case True
    then obtain d where d: "name \<notin> set (path s)" "map_of reg name = Some d"
      "miss reg (lifetime d) name s" by (auto simp: constructs_def)
    from a[unfolded resolve_construct[OF d]] obtain out s1 where
      y: "run n reg ex (create d) (invoked name (push name s)) = Some (out, s1)" by auto
    with Suc have "run (n + j) reg ex (create d) (invoked name (push name s)) = Some (out, s1)"
      by blast
    with a y show ?thesis
      using resolve_construct[OF d, of "n + j" ex] resolve_construct[OF d, of n ex] by simp
  next
    case False
    from resolve_immediate[OF False, of ex] a show ?thesis by auto
  qed
  have ctx: "context_get (Suc n + j) reg ex k s = Some (r, s')"
    if a: "context_get (Suc n) reg ex k s = Some (r, s')" for k s r s'
  proof (cases k)
    case (StringKey name)
    show ?thesis
    proof (cases "name = ''then'' \<or> (\<exists>m v. ex = Some m \<and> m name = Some v)")
      case True
      with a StringKey show ?thesis by auto
    next
      case False
      with a StringKey have "resolve n reg ex name s = Some (r, s')"
        by (auto split: option.splits)
      with Suc have "resolve (n + j) reg ex name s = Some (r, s')" by blast
      with False StringKey show ?thesis by (auto split: option.splits)
    qed
  next
    case (SymbolKey i)
    with a show ?thesis by simp
  qed
  have rn: "run (Suc n + j) reg ex f s = Some (r, s')"
    if a: "run (Suc n) reg ex f s = Some (r, s')" for f s r s'
  proof (cases f)
    case (Get k c)
    with a obtain r1 s1 where 1: "context_get n reg ex k s = Some (r1, s1)"
      and 2: "run n reg ex (c r1) s1 = Some (r, s')" by (auto split: option.splits)
    with Suc have "context_get (n + j) reg ex k s = Some (r1, s1)"
      "run (n + j) reg ex (c r1) s1 = Some (r, s')" by blast+
    with Get show ?thesis by simp
  next
    case (New c)
    with a have "run n reg ex (c (Obj (allocated s))) (s\<lparr>allocated := Suc (allocated s)\<rparr>)
        = Some (r, s')" by simp
    with Suc have "run (n + j) reg ex (c (Obj (allocated s))) (s\<lparr>allocated := Suc (allocated s)\<rparr>)
        = Some (r, s')" by blast
    with New show ?thesis by simp
  qed (use a in auto)
  from res ctx rn show ?case by blast
qed

lemma resolve_fuel_mono:
  "resolve n reg ex name s = Some x \<Longrightarrow> n \<le> m \<Longrightarrow> resolve m reg ex name s = Some x"
  using fuel_mono_aux[of n reg ex "m - n"] by (cases x) auto

lemma context_get_fuel_mono:
  "context_get n reg ex k s = Some x \<Longrightarrow> n \<le> m \<Longrightarrow> context_get m reg ex k s = Some x"
  using fuel_mono_aux[of n reg ex "m - n"] by (cases x) auto

lemma run_fuel_mono:
  "run n reg ex f s = Some x \<Longrightarrow> n \<le> m \<Longrightarrow> run m reg ex f s = Some x"
  using fuel_mono_aux[of n reg ex "m - n"] by (cases x) auto

text \<open>Every run ends: the registry is finite, no name is pushed twice, and a factory makes
  finitely many reads.\<close>

lemma run_total_aux:
  "\<forall>t f. path t = path (s::state) \<longrightarrow> (\<exists>n x. run n reg ex f t = Some x)"
proof (induction "card (fst ` set reg - set (path s))" arbitrary: s rule: less_induct)
  case less
  have ctx: "\<exists>n x. context_get n reg ex k t = Some x" if pt: "path t = path s" for t k
  proof (cases k)
    case (SymbolKey i)
    have "context_get (Suc 0) reg ex k t = Some (Inl TypeError, t)" using SymbolKey by simp
    then show ?thesis by blast
  next
    case (StringKey name)
    show ?thesis
    proof (cases "name = ''then'' \<or> (\<exists>m v. ex = Some m \<and> m name = Some v)")
      case True
      then have "\<exists>x. context_get (Suc 0) reg ex k t = Some x" using StringKey by auto
      then show ?thesis by blast
    next
      case False
      have "\<exists>n x. resolve n reg ex name t = Some x"
      proof (cases "constructs reg name t")
        case False
        from resolve_immediate[OF False, of ex] show ?thesis by blast
      next
        case True
        then obtain d where d: "name \<notin> set (path t)" "map_of reg name = Some d"
          "miss reg (lifetime d) name t" by (auto simp: constructs_def)
        let ?t0 = "invoked name (push name t)"
        from d(2) have "name \<in> fst ` set reg" by (metis map_of_eq_None_iff option.distinct(1))
        with d(1) pt have "fst ` set reg - set (path ?t0) \<subset> fst ` set reg - set (path s)"
          by auto
        then have "card (fst ` set reg - set (path ?t0)) < card (fst ` set reg - set (path s))"
          by (intro psubset_card_mono) auto
        from less.hyps[of ?t0] this obtain n x where "run n reg ex (create d) ?t0 = Some x"
          by blast
        then have "\<exists>y. resolve (Suc n) reg ex name t = Some y"
          by (simp add: resolve_construct[OF d] del: resolve.simps)
        then show ?thesis by blast
      qed
      then obtain n x where "resolve n reg ex name t = Some x" by blast
      with False StringKey have "context_get (Suc n) reg ex k t = Some x"
        by (auto split: option.splits)
      then show ?thesis by blast
    qed
  qed
  have "\<exists>n x. run n reg ex f t = Some x" if "path t = path s" for f t
    using that
  proof (induction f arbitrary: t)
    case (Return v)
    have "run (Suc 0) reg ex (Return v) t = Some (Inr v, t)" by simp
    then show ?case by blast
  next
    case (Throw e)
    have "run (Suc 0) reg ex (Throw e) t = Some (Inl e, t)" by simp
    then show ?case by blast
  next
    case (Get k c)
    from ctx[OF Get.prems] obtain n1 r1 t1 where 1: "context_get n1 reg ex k t = Some (r1, t1)"
      by fast
    then have "path t1 = path s" using Get.prems by (simp add: context_get_path)
    with Get.IH[of "c r1" t1] obtain n2 x where 2: "run n2 reg ex (c r1) t1 = Some x" by auto
    from 1 have "context_get (max n1 n2) reg ex k t = Some (r1, t1)"
      by (rule context_get_fuel_mono) simp
    moreover from 2 have "run (max n1 n2) reg ex (c r1) t1 = Some x"
      by (rule run_fuel_mono) simp
    ultimately have "run (Suc (max n1 n2)) reg ex (Get k c) t = Some x" by simp
    then show ?case by blast
  next
    case (New c)
    from New.IH[of "c (Obj (allocated t))" "t\<lparr>allocated := Suc (allocated t)\<rparr>"] New.prems
    obtain n x where "run n reg ex (c (Obj (allocated t))) (t\<lparr>allocated := Suc (allocated t)\<rparr>)
        = Some x" by auto
    then have "run (Suc n) reg ex (New c) t = Some x" by simp
    then show ?case by blast
  qed
  then show ?case by blast
qed

lemma run_total: "\<exists>n r s'. run n reg ex f s = Some (r, s')"
  using run_total_aux[of s reg ex] by auto

lemma context_get_total: "\<exists>n r s'. context_get n reg ex k s = Some (r, s')"
proof -
  obtain n r s' where "run n reg ex (Get k (\<lambda>out. case out of Inl e \<Rightarrow> Throw e | Inr v \<Rightarrow> Return v)) s
      = Some (r, s')" using run_total by blast
  then obtain m where "n = Suc m" by (cases n) auto
  with \<open>run n reg ex _ s = Some (r, s')\<close> show ?thesis by (auto split: option.splits)
qed

lemma resolve_total: "\<exists>n r s'. resolve n reg ex name s = Some (r, s')"
proof (cases "constructs reg name s")
  case False
  from resolve_immediate[OF False, of ex] show ?thesis by blast
next
  case True
  then obtain d where d: "name \<notin> set (path s)" "map_of reg name = Some d"
    "miss reg (lifetime d) name s" by (auto simp: constructs_def)
  obtain n r s1 where "run n reg ex (create d) (invoked name (push name s)) = Some (r, s1)"
    using run_total by blast
  then have "\<exists>y. resolve (Suc n) reg ex name s = Some y"
    by (simp add: resolve_construct[OF d] del: resolve.simps)
  then show ?thesis by (metis surj_pair)
qed

section \<open>Reads through a provider\<close>

lemma read_Some:
  "read n i ex k p = Some (r, p') \<longleftrightarrow>
     (\<exists>s'. context_get n (registry p) ex k (scope_state p i) = Some (r, s') \<and> p' = write_back i s' p)"
  by (auto simp: read_def)

lemma scope_state_simps [simp]:
  "retainedSingleton (scope_state p i) = provider_retainedSingleton p"
  "calls (scope_state p i) = provider_calls p"
  "allocated (scope_state p i) = provider_allocated p"
  "retainedScoped (scope_state p i) = retainedScoped (scopes p ! i)"
  "path (scope_state p i) = path (scopes p ! i)"
  "scope_name (scope_state p i) = scope_name (scopes p ! i)"
  by (simp_all add: scope_state_def)

lemma write_back_simps [simp]:
  "registry (write_back i s p) = registry p"
  "provider_retainedSingleton (write_back i s p) = retainedSingleton s"
  "provider_calls (write_back i s p) = calls s"
  "provider_allocated (write_back i s p) = allocated s"
  "length (scopes (write_back i s p)) = length (scopes p)"
  "j \<noteq> i \<Longrightarrow> scopes (write_back i s p) ! j = scopes p ! j"
  "i < length (scopes p) \<Longrightarrow> retainedScoped (scopes (write_back i s p) ! i) = retainedScoped s"
  "i < length (scopes p) \<Longrightarrow> path (scopes (write_back i s p) ! i) = path s"
  "i < length (scopes p) \<Longrightarrow> scope_name (scopes (write_back i s p) ! i) = scope_name s"
  by (simp_all add: write_back_def)

lemma at_rest_nth: "at_rest p \<Longrightarrow> i < length (scopes p) \<Longrightarrow> path (scopes p ! i) = []"
  by (simp add: at_rest_def list_all_length)

lemma read_frame:
  assumes "read n i ex k p = Some (r, p')"
  shows "registry p' = registry p" "length (scopes p') = length (scopes p)"
    "j \<noteq> i \<Longrightarrow> scopes p' ! j = scopes p ! j"
    "at_rest p \<Longrightarrow> at_rest p'"
proof -
  from assms obtain s' where
    c: "context_get n (registry p) ex k (scope_state p i) = Some (r, s')"
    and p': "p' = write_back i s' p" by (auto simp: read_Some)
  from p' show "registry p' = registry p" "length (scopes p') = length (scopes p)"
    "j \<noteq> i \<Longrightarrow> scopes p' ! j = scopes p ! j" by simp_all
  from c have path: "path s' = path (scopes p ! i)" by (simp add: context_get_path)
  assume rest: "at_rest p"
  show "at_rest p'" unfolding at_rest_def list_all_length
  proof (intro allI impI)
    fix j assume j: "j < length (scopes p')"
    show "path (scopes p' ! j) = []"
    proof (cases "j = i")
      case True
      with j p' path rest show ?thesis by (simp add: at_rest_nth)
    next
      case False
      with j p' rest show ?thesis by (simp add: at_rest_nth)
    qed
  qed
qed



text \<open>A read that goes to construction invokes the factory of the name once.\<close>

lemma context_get_constructs:
  assumes c: "context_get n reg ex (StringKey name) s = Some (r, s')"
    and "name \<noteq> ''then''" and "\<forall>m. ex = Some m \<longrightarrow> m name = None"
    and np: "name \<notin> set (path s)" and d: "map_of reg name = Some d"
    and m: "miss reg (lifetime d) name s"
  shows "\<exists>n2 out s1. n = Suc (Suc n2) \<and>
     run n2 reg ex (create d) (invoked name (push name s)) = Some (out, s1) \<and>
     path s1 = path s @ [name] \<and>
     count_list (calls s1) name = Suc (count_list (calls s) name) \<and>
     (case out of Inl e \<Rightarrow> r = Inl e \<and> s' = pop s1
      | Inr v \<Rightarrow> r = Inr v \<and> s' = retain (lifetime d) name v (pop s1))"
proof -
  from c obtain n1 where n: "n = Suc n1" by (cases n) auto
  with c assms(2,3) have res: "resolve n1 reg ex name s = Some (r, s')"
    by (auto split: option.splits)
  then obtain n2 where n1: "n1 = Suc n2" by (cases n1) auto
  from res[unfolded n1 resolve_construct[OF np d m]] obtain out s1 where
    run: "run n2 reg ex (create d) (invoked name (push name s)) = Some (out, s1)"
    and fin: "(r, s') = (case out of Inl e \<Rightarrow> (Inl e, pop s1)
          | Inr v \<Rightarrow> (Inr v, retain (lifetime d) name v (pop s1)))"
    by auto
  from run have path: "path s1 = path s @ [name]"
    using run_path[OF run] by simp
  have "count_list (calls s1) name = count_list (calls (invoked name (push name s))) name"
    using run_relation[OF preserved_calls_on_path run, of name] by simp
  then have cnt: "count_list (calls s1) name = Suc (count_list (calls s) name)" by simp
  from fin have "case out of Inl e \<Rightarrow> r = Inl e \<and> s' = pop s1
      | Inr v \<Rightarrow> r = Inr v \<and> s' = retain (lifetime d) name v (pop s1)"
    by (cases out) simp_all
  with n n1 run path cnt show ?thesis by blast
qed





lemma reads_length:
  "reads n accs p = Some (rs, p') \<Longrightarrow>
     length rs = length accs \<and> registry p' = registry p \<and>
     length (scopes p') = length (scopes p) \<and> (at_rest p \<longrightarrow> at_rest p')"
proof (induction accs arbitrary: p rs)
  case Nil
  then show ?case by simp
next
  case (Cons a accs)
  obtain i ex k where a: "a = (i, ex, k)" by (cases a)
  from Cons.prems a obtain r p1 rs1 where 1: "read n i ex k p = Some (r, p1)"
    and 2: "reads n accs p1 = Some (rs1, p')" and rs: "rs = r # rs1"
    by (auto split: option.splits)
  from Cons.IH[OF 2] read_frame[OF 1] rs show ?case by simp
qed






text \<open>A factory followed by a change of the value it returns makes the same reads.\<close>

lemma run_bind_Return:
  "run n reg ex (bind_factory f (\<lambda>u. Return (h u))) s =
     map_option (\<lambda>(out, s1). (map_sum id h out, s1)) (run n reg ex f s)"
proof (induction n arbitrary: f s)
  case 0
  show ?case by simp
next
  case (Suc n)
  show ?case
  proof (cases f)
    case (Get k c)
    show ?thesis
    proof (cases "context_get n reg ex k s")
      case None
      with Get show ?thesis by simp
    next
      case (Some x)
      obtain r1 s1 where "x = (r1, s1)" by (cases x)
      with Some Get Suc[of "c r1" s1] show ?thesis by simp
    qed
  next
    case (New c)
    with Suc[of "c (Obj (allocated s))" "s\<lparr>allocated := Suc (allocated s)\<rparr>"] show ?thesis
      by simp
  next
    case (Return v)
    then show ?thesis by (cases n) simp_all
  next
    case (Throw e)
    then show ?thesis by (cases n) simp_all
  qed
qed

lemma run_new_target:
  "run (Suc n) reg ex (new_target b) s =
     map_option (\<lambda>(out, s1). (map_sum id (\<lambda>u. if is_object u then u else Obj (allocated s)) out, s1))
       (run n reg ex (b (Obj (allocated s))) (s\<lparr>allocated := Suc (allocated s)\<rparr>))"
  by (simp add: new_target_def run_bind_Return)

section \<open>Spreading and destructuring a context\<close>

lemma Proxy_Get_createContext [simp]:
  "Proxy_Get n reg (createContext ex) k s = context_get n reg ex k s"
  by (simp add: Proxy_Get_def createContext_def)

lemma destructuring_chain:
  "destructuring n reg (createContext ex) ks s = Some (Inr kvs, s') \<Longrightarrow>
     map fst kvs = ks \<and>
     (\<exists>ss. length ss = Suc (length ks) \<and> ss ! 0 = s \<and> ss ! length ks = s' \<and>
        (\<forall>i < length ks. context_get n reg ex (StringKey (ks ! i)) (ss ! i)
            = Some (Inr (snd (kvs ! i)), ss ! Suc i)))"
proof (induction ks arbitrary: s kvs)
  case Nil
  then have "kvs = []" "s' = s" by simp_all
  then show ?case by (auto intro: exI[of _ "[s]"])
next
  case (Cons k ks)
  from Cons.prems obtain v s1 kvs1 where
    1: "context_get n reg ex (StringKey k) s = Some (Inr v, s1)"
    and 2: "destructuring n reg (createContext ex) ks s1 = Some (Inr kvs1, s')"
    and kvs: "kvs = (k, v) # kvs1"
    by (auto split: option.splits sum.splits)
  from Cons.IH[OF 2] obtain ss where ss: "map fst kvs1 = ks" "length ss = Suc (length ks)"
    "ss ! 0 = s1" "ss ! length ks = s'"
    "\<forall>i < length ks. context_get n reg ex (StringKey (ks ! i)) (ss ! i)
            = Some (Inr (snd (kvs1 ! i)), ss ! Suc i)" by blast
  have "\<forall>i < length (k # ks). context_get n reg ex (StringKey ((k # ks) ! i)) ((s # ss) ! i)
            = Some (Inr (snd (kvs ! i)), (s # ss) ! Suc i)"
  proof (intro allI impI)
    fix i assume i: "i < length (k # ks)"
    show "context_get n reg ex (StringKey ((k # ks) ! i)) ((s # ss) ! i)
            = Some (Inr (snd (kvs ! i)), (s # ss) ! Suc i)"
    proof (cases i)
      case 0
      with 1 ss(3) kvs show ?thesis by simp
    next
      case (Suc j)
      with i ss(5) kvs show ?thesis by simp
    qed
  qed
  moreover have "length (s # ss) = Suc (length (k # ks))" "(s # ss) ! 0 = s"
    "(s # ss) ! length (k # ks) = s'" using ss by simp_all
  moreover have "map fst kvs = k # ks" using kvs ss(1) by simp
  ultimately show ?case by blast
qed

lemma destructuring_total:
  "\<exists>n r s'. destructuring n reg (createContext ex) ks s = Some (r, s')"
proof (induction ks arbitrary: s)
  case Nil
  show ?case by simp
next
  case (Cons k ks)
  obtain n1 r1 s1 where 1: "context_get n1 reg ex (StringKey k) s = Some (r1, s1)"
    using context_get_total by blast
  show ?case
  proof (cases r1)
    case (Inl e)
    with 1 have "destructuring n1 reg (createContext ex) (k # ks) s = Some (Inl e, s1)" by simp
    then show ?thesis by blast
  next
    case (Inr v)
    from Cons[of s1] obtain n2 r2 s2 where
      2: "destructuring n2 reg (createContext ex) ks s1 = Some (r2, s2)" by blast
    have mono: "destructuring m reg (createContext ex) js t = Some x"
      if "destructuring n reg (createContext ex) js t = Some x" "n \<le> m" for n m js t x
      using that
    proof (induction js arbitrary: t x)
      case Nil
      then show ?case by simp
    next
      case (Cons j js)
      from Cons.prems(1) obtain r t1 where g: "context_get n reg ex (StringKey j) t = Some (r, t1)"
        by (auto split: option.splits)
      then have g': "context_get m reg ex (StringKey j) t = Some (r, t1)"
        using Cons.prems(2) by (rule context_get_fuel_mono)
      show ?case
      proof (cases r)
        case (Inl e)
        with g g' Cons.prems(1) show ?thesis by simp
      next
        case (Inr w)
        with g Cons.prems(1) obtain y where
          y: "destructuring n reg (createContext ex) js t1 = Some y"
          by (auto split: option.splits)
        from Cons.IH[OF y Cons.prems(2)] y g g' Inr Cons.prems(1) show ?thesis by simp
      qed
    qed
    from 1 have "context_get (max n1 n2) reg ex (StringKey k) s = Some (r1, s1)"
      by (rule context_get_fuel_mono) simp
    moreover from 2 have "destructuring (max n1 n2) reg (createContext ex) ks s1 = Some (r2, s2)"
      by (rule mono) simp
    ultimately have "\<exists>x. destructuring (max n1 n2) reg (createContext ex) (k # ks) s = Some x"
      using Inr by (cases r2) simp_all
    then show ?thesis by (metis surj_pair)
  qed
qed

text \<open>With traps that report the keys, the spread is the destructuring of those keys.\<close>

lemma spread_with_traps:
  "spread n reg (px\<lparr>proxy_handler := (proxy_handler px)\<lparr>trap_ownKeys := Some (\<lambda>t. ks),
        trap_getOwnPropertyDescriptor := Some (\<lambda>t k. True)\<rparr>\<rparr>) s
   = destructuring n reg px ks s"
proof -
  let ?px = "px\<lparr>proxy_handler := (proxy_handler px)\<lparr>trap_ownKeys := Some (\<lambda>t. ks),
        trap_getOwnPropertyDescriptor := Some (\<lambda>t k. True)\<rparr>\<rparr>"
  have g: "Proxy_Get n reg ?px k t = Proxy_Get n reg px k t" for k t
    by (cases "trap_get (proxy_handler px)") (simp_all add: Proxy_Get_def)
  have e: "Proxy_GetOwnProperty ?px k" for k
    by (simp add: Proxy_GetOwnProperty_def)
  have "CopyDataProperties n reg ?px js t = destructuring n reg px js t" for js t
  proof (induction js arbitrary: t)
    case Nil
    show ?case by simp
  next
    case (Cons j js)
    show ?case unfolding CopyDataProperties.simps destructuring.simps g Cons
      using e by simp
  qed
  then show ?thesis by (simp add: spread_def Proxy_OwnPropertyKeys_def)
qed

section \<open>Unfolding the definitions on concrete inputs\<close>

lemmas engine_defs = throwErrorIfCircularReferenced_def registry_get_def Map_get_def push_def
  pop_def invoked_def finally_pop_def new_target_def throwErrorIfLifetimeExceeded_def Let_def
  throwError_def descriptor_of_def service_class_def arrow_function_def new_state_def

lemmas provider_defs = read_def scope_state_def write_back_def beginScope_def
  ServiceProvider_def ServiceScope_def two_scopes_def at_rest_def

lemmas proxy_defs = createContext_def Proxy_Get_def Proxy_GetOwnProperty_def
  Proxy_OwnPropertyKeys_def spread_def names_def

section \<open>Registration\<close>

text \<open>
  C10. A target that is not a function is refused by \<open>addSingleton\<close>, \<open>addScoped\<close> and
  \<open>addTransient\<close> with a \<open>TypeError\<close>, whatever the builder holds; the exception leaves the
  build function, so \<open>createProvider\<close> ends with the same \<open>TypeError\<close> and there is no
  registry and no provider to resolve from. This also holds when the registration comes
  after other builder calls that succeeded, and whatever would follow it in the chain.
\<close>

theorem non_function_target_TypeError:
  "addSingleton name (NotFunction v) b = Inl TypeError
   \<and> addScoped name (NotFunction v) b = Inl TypeError
   \<and> addTransient name (NotFunction v) b = Inl TypeError
   \<and> createProvider (addSingleton name (NotFunction v)) = Inl TypeError
   \<and> createProvider (addScoped name (NotFunction v)) = Inl TypeError
   \<and> createProvider (addTransient name (NotFunction v)) = Inl TypeError
   \<and> createProvider (\<lambda>b. and_then (and_then (addSingleton ''a'' A b)
          (addTransient name (NotFunction v))) rest) = Inl TypeError"
  by (simp add: addSingleton_def addScoped_def addTransient_def createProvider_def
      ServiceRegistry_def and_then_def A_def service_class_def)

section \<open>The dependency context\<close>

text \<open>
  C8. Reading a symbol key on a context ends with a \<open>TypeError\<close>, not with a
  \<open>ResolveError\<close>: the message handed to \<open>throwError\<close> interpolates the key, and a symbol
  does not convert to a string. The state is left as it was. Reading the string key
  \<open>then\<close> returns \<open>undefined\<close> and resolves nothing.
\<close>

theorem symbol_key_TypeError:
  "context_get (Suc n) reg ex (SymbolKey i) s = Some (Inl TypeError, s)
   \<and> context_get (Suc n) reg ex (SymbolKey i) s \<noteq> Some (Inl (ResolveError message), s)
   \<and> context_get (Suc n) reg ex (StringKey ''then'') s = Some (Inr Undefined, s)"
  by simp

text \<open>
  C5, as amended. For every name other than \<open>then\<close> that the exotic context has, reading
  it on a context created with that exotic context returns the exotic value and leaves the
  state as it was: nothing is resolved, no factory runs, whatever the registry holds
  under that name. Reading \<open>then\<close> returns \<open>undefined\<close> whatever the exotic context holds.
\<close>

theorem exotic_override:
  assumes "name \<noteq> ''then''" and "ex = Some m" and "m name = Some v"
  shows "context_get (Suc n) reg ex (StringKey name) s = Some (Inr v, s)
    \<and> context_get (Suc n) reg ex (StringKey ''then'') s = Some (Inr Undefined, s)"
  using assms by simp

theorem exotic_override_witness:
  "context_get (Suc 0) [(''a'', \<lparr>lifetime = Singleton, create = Throw TypeError\<rparr>)]
     (Some [''a'' \<mapsto> Str ''x'']) (StringKey ''a'')
     (scope_state (snd (beginScope (ServiceProvider []))) 0)
   = Some (Inr (Str ''x''), scope_state (snd (beginScope (ServiceProvider []))) 0)"
  using exotic_override[of "''a''" "Some [''a'' \<mapsto> Str ''x'']" "[''a'' \<mapsto> Str ''x'']" "Str ''x''" 0]
  by simp

text \<open>
  The claim as written fails for the name \<open>then\<close>: the check for it comes before the look
  into the exotic context.
\<close>

theorem exotic_then_counterexample:
  "context_get (Suc 0) [] (Some [''then'' \<mapsto> Str ''x'']) (StringKey ''then'')
     \<lparr>retainedScoped = Map.empty, path = [], scope_name = Null,
      retainedSingleton = Map.empty, calls = [], allocated = 0\<rparr>
   = Some (Inr Undefined, \<lparr>retainedScoped = Map.empty, path = [], scope_name = Null,
      retainedSingleton = Map.empty, calls = [], allocated = 0\<rparr>)
   \<and> [''then'' \<mapsto> Str ''x''] ''then'' = Some (Str ''x'') \<and> Undefined \<noteq> Str ''x''"
  by simp

text \<open>
  C9, as amended. The context that \<open>createContext\<close> builds is a Proxy over an empty
  object whose handler has a \<open>get\<close> trap and no other. It has no own key, so spread syntax,
  which copies the own enumerable properties, yields an empty object, reads nothing and
  leaves the state as it was. A destructuring pattern reads the names that it lists
  through the \<open>get\<close> trap: when it completes, the result has exactly those names, in
  order, each with the outcome of its read, the reads being made one after the other from
  the state that the one before left; and every destructuring returns. With an \<open>ownKeys\<close>
  trap and a \<open>getOwnPropertyDescriptor\<close> trap that report a list of names, which the
  handler does not have, spreading would be the destructuring of those names.
\<close>

theorem context_spread_and_destructuring:
  "spread n reg (createContext ex) s = Some (Inr [], s)
   \<and> Proxy_OwnPropertyKeys (createContext ex) = []
   \<and> (\<forall>ks kvs s'. destructuring n reg (createContext ex) ks s = Some (Inr kvs, s') \<longrightarrow>
        map fst kvs = ks \<and>
        (\<exists>ss. length ss = Suc (length ks) \<and> ss ! 0 = s \<and> ss ! length ks = s' \<and>
           (\<forall>i < length ks. context_get n reg ex (StringKey (ks ! i)) (ss ! i)
               = Some (Inr (snd (kvs ! i)), ss ! Suc i))))
   \<and> (\<forall>ks. \<exists>m r s'. destructuring m reg (createContext ex) ks s = Some (r, s'))
   \<and> (\<forall>ks. spread n reg
          (createContext ex\<lparr>proxy_handler := (proxy_handler (createContext ex))
             \<lparr>trap_ownKeys := Some (\<lambda>t. ks),
              trap_getOwnPropertyDescriptor := Some (\<lambda>t k. True)\<rparr>\<rparr>) s
        = destructuring n reg (createContext ex) ks s)"
proof (intro conjI allI impI)
  show keys: "Proxy_OwnPropertyKeys (createContext ex) = []"
    by (simp add: Proxy_OwnPropertyKeys_def createContext_def)
  then show "spread n reg (createContext ex) s = Some (Inr [], s)"
    by (simp add: spread_def)
  { fix ks kvs s'
    assume a: "destructuring n reg (createContext ex) ks s = Some (Inr kvs, s')"
    from destructuring_chain[OF a] show "map fst kvs = ks"
      and "\<exists>ss. length ss = Suc (length ks) \<and> ss ! 0 = s \<and> ss ! length ks = s' \<and>
           (\<forall>i < length ks. context_get n reg ex (StringKey (ks ! i)) (ss ! i)
               = Some (Inr (snd (kvs ! i)), ss ! Suc i))"
      by blast+ }
  { fix ks
    show "\<exists>m r s'. destructuring m reg (createContext ex) ks s = Some (r, s')"
      by (rule destructuring_total)
    show "spread n reg
          (createContext ex\<lparr>proxy_handler := (proxy_handler (createContext ex))
             \<lparr>trap_ownKeys := Some (\<lambda>t. ks),
              trap_getOwnPropertyDescriptor := Some (\<lambda>t k. True)\<rparr>\<rparr>) s
        = destructuring n reg (createContext ex) ks s"
      by (rule spread_with_traps) }
qed

text \<open>
  The mixed registry: destructuring its three names from a new context resolves the three
  services; the spread of the same context is empty.
\<close>

theorem context_spread_and_destructuring_witness:
  "destructuring 30 mixed_registry (createContext None) [''a'', ''b'', ''c''] new_state
     = Some (Inr [(''a'', Obj 0), (''b'', Obj 1), (''c'', Obj 2)],
         new_state\<lparr>retainedScoped := [''b'' \<mapsto> Obj 1], retainedSingleton := [''a'' \<mapsto> Obj 0],
           calls := [''a'', ''b'', ''c''], allocated := 3\<rparr>)
   \<and> map fst [(''a'', Obj 0), (''b'', Obj 1), (''c'', Obj 2)] = names mixed_registry
   \<and> spread 30 mixed_registry (createContext None) new_state = Some (Inr [], new_state)"
proof -
  have run: "destructuring 30 mixed_registry (createContext None) [''a'', ''b'', ''c''] new_state
     = Some (Inr [(''a'', Obj 0), (''b'', Obj 1), (''c'', Obj 2)],
         new_state\<lparr>retainedScoped := [''b'' \<mapsto> Obj 1], retainedSingleton := [''a'' \<mapsto> Obj 0],
           calls := [''a'', ''b'', ''c''], allocated := 3\<rparr>)"
    by (simp add: mixed_registry_def A_def B_def C_def engine_defs proxy_defs eval_nat_numeral)
  note t = context_spread_and_destructuring[of 30 mixed_registry None new_state]
  from t[THEN conjunct2, THEN conjunct2, THEN conjunct1, rule_format, OF run]
  have "map fst [(''a'', Obj 0), (''b'', Obj 1), (''c'', Obj 2)] = [''a'', ''b'', ''c'']"
    by blast
  then have "map fst [(''a'', Obj 0), (''b'', Obj 1), (''c'', Obj 2)] = names mixed_registry"
    by (simp add: names_def mixed_registry_def)
  with run t[THEN conjunct1] show ?thesis by blast
qed

text \<open>
  The claim as written fails for the mixed registry: the spread of a context has no entry,
  while the registry has three names.
\<close>

theorem spread_counterexample:
  "spread 30 mixed_registry (createContext None) new_state = Some (Inr [], new_state)
   \<and> names mixed_registry = [''a'', ''b'', ''c'']
   \<and> map fst ([] :: object) \<noteq> names mixed_registry"
  by (simp add: proxy_defs mixed_registry_def)

section \<open>Circular references and the resolution stack\<close>

text \<open>
  C3. A request for a name that is on the resolution stack fails at once, whatever the
  registry, the caches and the lifetime of the name: \<open>resolve\<close> returns a \<open>ResolveError\<close>
  and leaves the state as it was. The message is the scope label, the words
  \<open>Invalid service resolution\<close>, and the whole path with arrows, in which the most recent
  occurrence of the name and the requested name at the end stand in brackets. A read on a
  context whose scope is at rest, whether it ends in this error or not, leaves the stack
  empty, so no later resolution in that scope is refused as circular at its entry; and
  every read returns.
\<close>

theorem circular_reference_rejected:
  assumes "name \<in> set (path s)"
  shows "(\<exists>xs ys. path s = xs @ name # ys \<and> name \<notin> set ys \<and>
      resolve (Suc n) reg ex name s =
        Some (Inl (ResolveError
          ((if scope_name s = Null then ''/(unnamed)/ '' else ''/'' @ ToString (scope_name s) @ ''/ '')
           @ ''Invalid service resolution: ''
           @ concat (map (\<lambda>p. p @ '' -> '') xs) @ ''['' @ name @ ''] -> ''
           @ concat (map (\<lambda>p. p @ '' -> '') ys) @ ''['' @ name @ '']'')), s))
    \<and> (\<forall>m k t r t' other. path t = [] \<and> context_get m reg ex k t = Some (r, t') \<longrightarrow>
          path t' = [] \<and> throwErrorIfCircularReferenced other t' = Inr ())
    \<and> (\<forall>k t. \<exists>m r t'. context_get m reg ex k t = Some (r, t'))"
proof (intro conjI)
  from assms obtain xs ys where p: "path s = xs @ name # ys" "name \<notin> set ys"
    by (meson split_list_last)
  then have "resolve (Suc n) reg ex name s =
        Some (Inl (ResolveError
          ((if scope_name s = Null then ''/(unnamed)/ '' else ''/'' @ ToString (scope_name s) @ ''/ '')
           @ ''Invalid service resolution: ''
           @ concat (map (\<lambda>p. p @ '' -> '') xs) @ ''['' @ name @ ''] -> ''
           @ concat (map (\<lambda>p. p @ '' -> '') ys) @ ''['' @ name @ '']'')), s)"
    by (simp add: circular_message[OF p])
  with p show "\<exists>xs ys. path s = xs @ name # ys \<and> name \<notin> set ys \<and>
      resolve (Suc n) reg ex name s =
        Some (Inl (ResolveError
          ((if scope_name s = Null then ''/(unnamed)/ '' else ''/'' @ ToString (scope_name s) @ ''/ '')
           @ ''Invalid service resolution: ''
           @ concat (map (\<lambda>p. p @ '' -> '') xs) @ ''['' @ name @ ''] -> ''
           @ concat (map (\<lambda>p. p @ '' -> '') ys) @ ''['' @ name @ '']'')), s)"
    by blast
next
  show "\<forall>m k t r t' other. path t = [] \<and> context_get m reg ex k t = Some (r, t') \<longrightarrow>
          path t' = [] \<and> throwErrorIfCircularReferenced other t' = Inr ()"
    by (auto simp: context_get_path circular_Inr)
next
  show "\<forall>k t. \<exists>m r t'. context_get m reg ex k t = Some (r, t')"
    using context_get_total by blast
qed

text \<open>
  The cycle \<open>a\<close>, \<open>b\<close>, \<open>a\<close> and the self-dependency of the example registry; after the
  failed read of \<open>a\<close> the unrelated \<open>c\<close> is resolved in the same scope.
\<close>

theorem circular_reference_rejected_witness:
  "resolve (Suc 0) cyclic_registry None ''a'' (new_state\<lparr>path := [''a'', ''b'']\<rparr>)
     = Some (Inl (ResolveError ''/(unnamed)/ Invalid service resolution: [a] -> b -> [a]''),
             new_state\<lparr>path := [''a'', ''b'']\<rparr>)
   \<and> map_option (\<lambda>(r, t). (r, path t, calls t))
        (context_get 20 cyclic_registry None (StringKey ''a'') new_state)
     = Some (Inl (ResolveError ''/(unnamed)/ Invalid service resolution: [a] -> b -> [a]''),
             [], [''a'', ''b''])
   \<and> map_option (\<lambda>(r, t). (r, path t, calls t))
        (context_get 20 cyclic_registry None (StringKey ''self'') new_state)
     = Some (Inl (ResolveError ''/(unnamed)/ Invalid service resolution: [self] -> [self]''),
             [], [''self''])
   \<and> map_option fst
        (reads 20 [(0, None, StringKey ''a''), (0, None, StringKey ''c'')]
           (snd (beginScope (ServiceProvider cyclic_registry))))
     = Some [Inl (ResolveError ''/(unnamed)/ Invalid service resolution: [a] -> b -> [a]''),
             Inr (Obj 2)]"
  using circular_reference_rejected[of "''a''" "new_state\<lparr>path := [''a'', ''b'']\<rparr>" 0
      cyclic_registry None]
  by (simp add: cyclic_registry_def engine_defs provider_defs eval_nat_numeral)

text \<open>
  C4. Every call of \<open>resolve\<close> that returns leaves the path as it found it. A call on a
  scope at rest therefore leaves the stack empty, and the same name passes the circular
  check afterwards. When the factory throws, \<open>resolve\<close> ends with that very exception,
  the path the factory left (the path before, with the name pushed) is popped, and
  nothing is stored; when the factory returns, its value is the result. Every call of
  \<open>resolve\<close> returns.
\<close>

theorem stack_popped:
  assumes "resolve n reg ex name s = Some (r, s')"
  shows "path s' = path s
    \<and> (path s = [] \<longrightarrow> path s' = [] \<and> throwErrorIfCircularReferenced name s' = Inr ())
    \<and> (\<forall>m d e s1. n = Suc m \<and> name \<notin> set (path s) \<and> map_of reg name = Some d \<and>
          miss reg (lifetime d) name s \<and>
          run m reg ex (create d) (invoked name (push name s)) = Some (Inl e, s1) \<longrightarrow>
          r = Inl e \<and> path s1 = path s @ [name] \<and> s' = pop s1)
    \<and> (\<forall>m d v s1. n = Suc m \<and> name \<notin> set (path s) \<and> map_of reg name = Some d \<and>
          miss reg (lifetime d) name s \<and>
          run m reg ex (create d) (invoked name (push name s)) = Some (Inr v, s1) \<longrightarrow>
          r = Inr v \<and> path s1 = path s @ [name] \<and> s' = retain (lifetime d) name v (pop s1))
    \<and> (\<forall>t. \<exists>m r' t'. resolve m reg ex name t = Some (r', t'))"
proof (intro conjI allI impI)
  show p: "path s' = path s" using assms by (rule resolve_path)
  { assume "path s = []"
    with p show "path s' = []" by simp
    then show "throwErrorIfCircularReferenced name s' = Inr ()" by (simp add: circular_Inr) }
  { fix m d e s1
    assume a: "n = Suc m \<and> name \<notin> set (path s) \<and> map_of reg name = Some d \<and>
          miss reg (lifetime d) name s \<and>
          run m reg ex (create d) (invoked name (push name s)) = Some (Inl e, s1)"
    then have "resolve (Suc m) reg ex name s = Some (Inl e, pop s1)"
      using resolve_construct[of name s reg d m ex] by (simp del: resolve.simps)
    with assms a show "r = Inl e" "s' = pop s1" by simp_all
    from a show "path s1 = path s @ [name]" using run_path[of m reg ex _ _ "Inl e" s1] by fastforce }
  { fix m d v s1
    assume a: "n = Suc m \<and> name \<notin> set (path s) \<and> map_of reg name = Some d \<and>
          miss reg (lifetime d) name s \<and>
          run m reg ex (create d) (invoked name (push name s)) = Some (Inr v, s1)"
    then have "resolve (Suc m) reg ex name s = Some (Inr v, retain (lifetime d) name v (pop s1))"
      using resolve_construct[of name s reg d m ex] by (simp del: resolve.simps)
    with assms a show "r = Inr v" "s' = retain (lifetime d) name v (pop s1)" by simp_all
    from a show "path s1 = path s @ [name]" using run_path[of m reg ex _ _ "Inr v" s1] by fastforce }
  { fix t
    show "\<exists>m r' t'. resolve m reg ex name t = Some (r', t')" by (rule resolve_total) }
qed

text \<open>
  A transient whose factory throws is resolved twice in a row with the same exception and
  an empty stack; a scoped service whose dependency throws ends with that exception.
\<close>

theorem stack_popped_witness:
  "resolve 3 failing_registry None ''h'' new_state
     = Some (Inl (Thrown (Str ''boom'')), new_state\<lparr>calls := [''h'']\<rparr>)
   \<and> run 2 failing_registry None (Throw (Thrown (Str ''boom''))) (invoked ''h'' (push ''h'' new_state))
     = Some (Inl (Thrown (Str ''boom'')), new_state\<lparr>path := [''h''], calls := [''h'']\<rparr>)
   \<and> path (new_state\<lparr>calls := [''h'']\<rparr>) = []
   \<and> throwErrorIfCircularReferenced ''h'' (new_state\<lparr>calls := [''h'']\<rparr>) = Inr ()
   \<and> resolve 3 failing_registry None ''h'' (new_state\<lparr>calls := [''h'']\<rparr>)
     = Some (Inl (Thrown (Str ''boom'')), new_state\<lparr>calls := [''h'', ''h'']\<rparr>)
   \<and> map_option (\<lambda>(r, t). (r, path t, calls t))
        (context_get 20 failing_registry None (StringKey ''g'') new_state)
     = Some (Inl (Thrown (Str ''boom'')), [], [''g'', ''f''])"
proof -
  have h: "resolve 3 failing_registry None ''h'' new_state
     = Some (Inl (Thrown (Str ''boom'')), new_state\<lparr>calls := [''h'']\<rparr>)"
    by (simp add: failing_registry_def engine_defs eval_nat_numeral)
  from stack_popped[OF h] show ?thesis
    by (simp add: failing_registry_def engine_defs eval_nat_numeral)
qed

section \<open>The lifetime check\<close>

text \<open>
  C1, as amended. The walk over the resolution stack is made for a scoped service that
  misses the scope's cache, and for no other: if the most recent singleton on the stack
  is \<open>p\<close> (the entries after it are registered and not singletons), \<open>resolve\<close> returns a
  \<open>ResolveError\<close> whose message is the scope label, the words \<open>Invalid service lifetime\<close>
  and the path with \<open>p\<close> and the requested name in brackets, and leaves the state as it
  was. A singleton or a transient that misses its cache is constructed whatever the stack
  holds. (The label of this message is \<open>/(unnamed)/\<close> only for a scope whose name is
  \<open>undefined\<close>: the method compares the name with \<open>undefined\<close>, and a scope that was
  never named has the name \<open>null\<close>.)
\<close>

theorem lifetime_check_scoped_only:
  assumes "name \<notin> set (path s)" and "map_of reg name = Some d"
  shows "(lifetime d = Scoped \<and> Map_get (retainedScoped s) name = Undefined \<and>
        path s = xs @ p # ys \<and> map_of reg p = Some dp \<and> lifetime dp = Singleton \<and>
        (\<forall>y \<in> set ys. \<exists>dy. map_of reg y = Some dy \<and> lifetime dy \<noteq> Singleton) \<longrightarrow>
        resolve (Suc n) reg ex name s =
          Some (Inl (ResolveError
            ((if scope_name s = Undefined then ''/(unnamed)/ ''
              else ''/'' @ ToString (scope_name s) @ ''/ '')
             @ ''Invalid service lifetime: ''
             @ concat (map (\<lambda>p. p @ '' -> '') xs) @ ''['' @ p @ ''] -> ''
             @ concat (map (\<lambda>p. p @ '' -> '') ys) @ ''['' @ name @ '']'')), s))
    \<and> (lifetime d \<noteq> Scoped \<and> miss reg (lifetime d) name s \<longrightarrow>
        resolve (Suc n) reg ex name s =
          map_option (\<lambda>(out, s1). case out of Inl e \<Rightarrow> (Inl e, pop s1)
              | Inr v \<Rightarrow> (Inr v, retain (lifetime d) name v (pop s1)))
            (run n reg ex (create d) (invoked name (push name s))))"
proof (intro conjI impI)
  assume a: "lifetime d = Scoped \<and> Map_get (retainedScoped s) name = Undefined \<and>
        path s = xs @ p # ys \<and> map_of reg p = Some dp \<and> lifetime dp = Singleton \<and>
        (\<forall>y \<in> set ys. \<exists>dy. map_of reg y = Some dy \<and> lifetime dy \<noteq> Singleton)"
  from assms(1) have c: "throwErrorIfCircularReferenced name s = Inr ()"
    by (simp add: circular_Inr)
  from assms(2) have g: "registry_get reg name = Inr d"
    by (simp add: registry_get_Inr)
  from a have "throwErrorIfLifetimeExceeded reg name s =
     Inl (ResolveError
       ((if scope_name s = Undefined then ''/(unnamed)/ '' else ''/'' @ ToString (scope_name s) @ ''/ '')
        @ ''Invalid service lifetime: ''
        @ concat (map (\<lambda>p. p @ '' -> '') xs) @ ''['' @ p @ ''] -> ''
        @ concat (map (\<lambda>p. p @ '' -> '') ys) @ ''['' @ name @ '']''))"
    by (intro lifetime_message[of s xs p ys reg dp]) simp_all
  with c g a show "resolve (Suc n) reg ex name s =
          Some (Inl (ResolveError
            ((if scope_name s = Undefined then ''/(unnamed)/ ''
              else ''/'' @ ToString (scope_name s) @ ''/ '')
             @ ''Invalid service lifetime: ''
             @ concat (map (\<lambda>p. p @ '' -> '') xs) @ ''['' @ p @ ''] -> ''
             @ concat (map (\<lambda>p. p @ '' -> '') ys) @ ''['' @ name @ '']'')), s)"
    by simp
next
  assume "lifetime d \<noteq> Scoped \<and> miss reg (lifetime d) name s"
  with assms show "resolve (Suc n) reg ex name s =
          map_option (\<lambda>(out, s1). case out of Inl e \<Rightarrow> (Inl e, pop s1)
              | Inr v \<Rightarrow> (Inr v, retain (lifetime d) name v (pop s1)))
            (run n reg ex (create d) (invoked name (push name s)))"
    using resolve_construct[of name s reg d n ex] by blast
qed

text \<open>
  The singleton \<open>s\<close> reaches the scoped \<open>x\<close> through the transient \<open>t\<close>: the transient is
  constructed under the singleton, the scoped service is refused.
\<close>

theorem lifetime_check_scoped_only_witness:
  "resolve 1 singleton_over_scoped None ''x'' (new_state\<lparr>path := [''s'', ''t'']\<rparr>)
     = Some (Inl (ResolveError ''/null/ Invalid service lifetime: [s] -> t -> [x]''),
             new_state\<lparr>path := [''s'', ''t'']\<rparr>)
   \<and> map_option (\<lambda>(r, t). (r, path t, calls t))
        (resolve 10 singleton_over_scoped None ''t'' (new_state\<lparr>path := [''s'']\<rparr>))
     = Some (Inl (ResolveError ''/null/ Invalid service lifetime: [s] -> t -> [x]''),
             [''s''], [''t''])
   \<and> map_option (\<lambda>(r, t). (r, path t, calls t))
        (context_get 20 singleton_over_scoped None (StringKey ''s'') new_state)
     = Some (Inl (ResolveError ''/null/ Invalid service lifetime: [s] -> t -> [x]''),
             [], [''s'', ''t''])"
proof -
  have x: "''x'' \<notin> set (path (new_state\<lparr>path := [''s'', ''t'']\<rparr>))"
    and dx: "map_of singleton_over_scoped ''x'' = Some (descriptor_of Scoped (service_class []))"
    and t: "''t'' \<notin> set (path (new_state\<lparr>path := [''s'']\<rparr>))"
    and dt: "map_of singleton_over_scoped ''t'' = Some (descriptor_of Transient (service_class [''x'']))"
    by (simp_all add: singleton_over_scoped_def new_state_def)
  from lifetime_check_scoped_only[OF x dx, of "[]" "''s''" "[''t'']"
      "descriptor_of Singleton (service_class [''t''])" 0 None]
    lifetime_check_scoped_only[OF t dt, of "[]" "''s''" "[]"
      "descriptor_of Singleton (service_class [''t''])" 9 None]
  show ?thesis
    by (simp add: singleton_over_scoped_def engine_defs eval_nat_numeral miss_def retain_def)
qed

text \<open>
  The claim as written fails: with the singleton \<open>s\<close> on the stack, the transient \<open>t\<close> and
  the singleton \<open>u\<close> are constructed, and the read of \<open>s\<close> returns its instance.
\<close>

theorem lifetime_check_counterexample:
  "map_option lifetime (map_of singleton_over_transient ''s'') = Some Singleton
   \<and> map_option lifetime (map_of singleton_over_transient ''t'') = Some Transient
   \<and> map_option lifetime (map_of singleton_over_transient ''u'') = Some Singleton
   \<and> map_option (\<lambda>(r, t). (r, path t, calls t))
        (resolve 10 singleton_over_transient None ''t'' (new_state\<lparr>path := [''s'']\<rparr>))
     = Some (Inr (Obj 0), [''s''], [''t''])
   \<and> map_option (\<lambda>(r, t). (r, path t, calls t))
        (resolve 10 singleton_over_transient None ''u'' (new_state\<lparr>path := [''s'']\<rparr>))
     = Some (Inr (Obj 0), [''s''], [''u''])
   \<and> map_option (\<lambda>(r, t). (r, path t, calls t))
        (context_get 20 singleton_over_transient None (StringKey ''s'') new_state)
     = Some (Inr (Obj 0), [], [''s'', ''t'', ''u''])"
  by (simp add: singleton_over_transient_def engine_defs eval_nat_numeral)

section \<open>Lifetimes and caches\<close>







text \<open>
  C7, as amended. Let \<open>name\<close> be registered as transient. No read of any key changes
  either cache at \<open>name\<close>. A read of \<open>name\<close> that is answered neither by the reserved name
  \<open>then\<close> nor by the exotic context, while \<open>name\<close> is not under construction, invokes the
  registered factory exactly once and returns the outcome of that run. When the factory
  is a class constructed with \<open>new\<close>, the run allocates an object, and the instance is that
  new object unless the constructor returns an object of its own. Every read returns.
\<close>

theorem transient_constructed_every_read:
  assumes "map_of reg name = Some d" and "lifetime d = Transient"
  shows "(\<forall>n k s r s'. context_get n reg ex k s = Some (r, s') \<longrightarrow>
        retainedSingleton s' name = retainedSingleton s name \<and>
        retainedScoped s' name = retainedScoped s name)
    \<and> (\<forall>n s r s'. name \<noteq> ''then'' \<and> (\<forall>m. ex = Some m \<longrightarrow> m name = None) \<and>
        name \<notin> set (path s) \<and> context_get n reg ex (StringKey name) s = Some (r, s') \<longrightarrow>
        count_list (calls s') name = Suc (count_list (calls s) name) \<and>
        (\<exists>n2 s1. n = Suc (Suc n2) \<and>
           run n2 reg ex (create d) (invoked name (push name s)) = Some (r, s1) \<and> s' = pop s1) \<and>
        (\<forall>b. create d = new_target b \<longrightarrow> allocated s < allocated s' \<and>
           (\<exists>n3 out s1.
              run n3 reg ex (b (Obj (allocated s)))
                (invoked name (push name s)\<lparr>allocated := Suc (allocated s)\<rparr>) = Some (out, s1) \<and>
              r = map_sum id (\<lambda>u. if is_object u then u else Obj (allocated s)) out)))
    \<and> (\<forall>k s. \<exists>n r s'. context_get n reg ex k s = Some (r, s'))"
proof -
  have ns: "\<And>d'. map_of reg name = Some d' \<Longrightarrow> lifetime d' \<noteq> Singleton"
    and nc: "\<And>d'. map_of reg name = Some d' \<Longrightarrow> lifetime d' \<noteq> Scoped"
    using assms by auto
  have never: "\<forall>n k s r s'. context_get n reg ex k s = Some (r, s') \<longrightarrow>
        retainedSingleton s' name = retainedSingleton s name \<and>
        retainedScoped s' name = retainedScoped s name"
    using context_get_relation[OF preserved_singleton_frame[OF ns]]
      context_get_relation[OF preserved_scoped_frame[OF nc]] by blast
  have every: "\<forall>n s r s'. name \<noteq> ''then'' \<and> (\<forall>m. ex = Some m \<longrightarrow> m name = None) \<and>
        name \<notin> set (path s) \<and> context_get n reg ex (StringKey name) s = Some (r, s') \<longrightarrow>
        count_list (calls s') name = Suc (count_list (calls s) name) \<and>
        (\<exists>n2 s1. n = Suc (Suc n2) \<and>
           run n2 reg ex (create d) (invoked name (push name s)) = Some (r, s1) \<and> s' = pop s1) \<and>
        (\<forall>b. create d = new_target b \<longrightarrow> allocated s < allocated s' \<and>
           (\<exists>n3 out s1.
              run n3 reg ex (b (Obj (allocated s)))
                (invoked name (push name s)\<lparr>allocated := Suc (allocated s)\<rparr>) = Some (out, s1) \<and>
              r = map_sum id (\<lambda>u. if is_object u then u else Obj (allocated s)) out))"
  proof (intro allI impI)
    fix n s r s'
    assume a: "name \<noteq> ''then'' \<and> (\<forall>m. ex = Some m \<longrightarrow> m name = None) \<and>
        name \<notin> set (path s) \<and> context_get n reg ex (StringKey name) s = Some (r, s')"
    let ?s0 = "invoked name (push name s)"
    from assms(2) have m: "miss reg (lifetime d) name s" by (simp add: miss_def)
    from a have g: "context_get n reg ex (StringKey name) s = Some (r, s')"
      and np: "name \<notin> set (path s)" by simp_all
    from a context_get_constructs[OF g _ _ np assms(1) m] obtain n2 out s1 where
      n: "n = Suc (Suc n2)"
      and run: "run n2 reg ex (create d) ?s0 = Some (out, s1)"
      and cnt: "count_list (calls s1) name = Suc (count_list (calls s) name)"
      and fin: "case out of Inl e \<Rightarrow> r = Inl e \<and> s' = pop s1
        | Inr v \<Rightarrow> r = Inr v \<and> s' = retain (lifetime d) name v (pop s1)"
      by blast
    from fin assms(2) have r: "r = out" and s': "s' = pop s1"
      by (cases out; simp add: retain_def)+
    have 1: "count_list (calls s') name = Suc (count_list (calls s) name)"
      using cnt s' by simp
    have 2: "\<exists>n2 s1. n = Suc (Suc n2) \<and>
           run n2 reg ex (create d) ?s0 = Some (r, s1) \<and> s' = pop s1"
      using n run r s' by blast
    have 3: "allocated s < allocated s' \<and>
           (\<exists>n3 out s1.
              run n3 reg ex (b (Obj (allocated s))) (?s0\<lparr>allocated := Suc (allocated s)\<rparr>)
                = Some (out, s1) \<and>
              r = map_sum id (\<lambda>u. if is_object u then u else Obj (allocated s)) out)"
      if b: "create d = new_target b" for b
    proof -
      from run b obtain n3 where n3: "n2 = Suc n3" by (cases n2) auto
      from run[unfolded b n3 run_new_target] obtain out' where
        body: "run n3 reg ex (b (Obj (allocated ?s0))) (?s0\<lparr>allocated := Suc (allocated ?s0)\<rparr>)
            = Some (out', s1)"
        and out: "out = map_sum id (\<lambda>u. if is_object u then u else Obj (allocated ?s0)) out'"
        by auto
      from run_relation[OF preserved_allocated_grow body]
      have "Suc (allocated s) \<le> allocated s1" by simp
      with s' have lt: "allocated s < allocated s'" by simp
      have al: "allocated ?s0 = allocated s" by simp
      from body out r show ?thesis unfolding al using lt by blast
    qed
    from 1 2 3 show "count_list (calls s') name = Suc (count_list (calls s) name) \<and>
        (\<exists>n2 s1. n = Suc (Suc n2) \<and>
           run n2 reg ex (create d) ?s0 = Some (r, s1) \<and> s' = pop s1) \<and>
        (\<forall>b. create d = new_target b \<longrightarrow> allocated s < allocated s' \<and>
           (\<exists>n3 out s1.
              run n3 reg ex (b (Obj (allocated s))) (?s0\<lparr>allocated := Suc (allocated s)\<rparr>)
                = Some (out, s1) \<and>
              r = map_sum id (\<lambda>u. if is_object u then u else Obj (allocated s)) out))"
      by blast
  qed
  have "\<forall>k s. \<exists>n r s'. context_get n reg ex k s = Some (r, s')"
    using context_get_total by blast
  with never every show ?thesis by blast
qed

text \<open>
  Two reads of the transient \<open>c\<close> of the mixed registry in one scope: two invocations and
  two different objects, and no cache entry for \<open>c\<close>.
\<close>

theorem transient_constructed_every_read_witness:
  "context_get 30 mixed_registry None (StringKey ''c'') new_state
     = Some (Inr (Obj 0),
         new_state\<lparr>retainedScoped := [''b'' \<mapsto> Obj 2], retainedSingleton := [''a'' \<mapsto> Obj 1],
           calls := [''c'', ''a'', ''b''], allocated := 3\<rparr>)
   \<and> count_list [''c'', ''a'', ''b''] ''c'' = Suc (count_list (calls new_state) ''c'')
   \<and> allocated new_state < 3
   \<and> map_option (\<lambda>(r, s). (r, calls s, retainedSingleton s ''c'', retainedScoped s ''c''))
       (context_get 30 mixed_registry None (StringKey ''c'')
         (new_state\<lparr>retainedScoped := [''b'' \<mapsto> Obj 2], retainedSingleton := [''a'' \<mapsto> Obj 1],
           calls := [''c'', ''a'', ''b''], allocated := 3\<rparr>))
     = Some (Inr (Obj 3), [''c'', ''a'', ''b'', ''c''], None, None)"
proof -
  have d: "map_of mixed_registry ''c'' = Some (descriptor_of Transient C)"
    "lifetime (descriptor_of Transient C) = Transient"
    by (simp_all add: mixed_registry_def descriptor_of_def)
  have rd: "context_get 30 mixed_registry None (StringKey ''c'') new_state
     = Some (Inr (Obj 0),
         new_state\<lparr>retainedScoped := [''b'' \<mapsto> Obj 2], retainedSingleton := [''a'' \<mapsto> Obj 1],
           calls := [''c'', ''a'', ''b''], allocated := 3\<rparr>)"
    by (simp add: mixed_registry_def A_def B_def C_def engine_defs eval_nat_numeral)
  have out: "map_option (\<lambda>(r, s). (r, calls s, retainedSingleton s ''c'', retainedScoped s ''c''))
       (context_get 30 mixed_registry None (StringKey ''c'')
         (new_state\<lparr>retainedScoped := [''b'' \<mapsto> Obj 2], retainedSingleton := [''a'' \<mapsto> Obj 1],
           calls := [''c'', ''a'', ''b''], allocated := 3\<rparr>))
     = Some (Inr (Obj 3), [''c'', ''a'', ''b'', ''c''], None, None)"
    by (simp add: mixed_registry_def A_def B_def C_def engine_defs eval_nat_numeral)
  note every = transient_constructed_every_read[OF d, THEN conjunct2, THEN conjunct1, rule_format,
      of None new_state 30 "Inr (Obj 0)"
        "new_state\<lparr>retainedScoped := [''b'' \<mapsto> Obj 2], retainedSingleton := [''a'' \<mapsto> Obj 1],
           calls := [''c'', ''a'', ''b''], allocated := 3\<rparr>"]
  have "count_list [''c'', ''a'', ''b''] ''c'' = Suc (count_list (calls new_state) ''c'')"
    using every[THEN conjunct1] rd by (simp add: new_state_def)
  moreover have "allocated new_state < 3"
    using every[THEN conjunct2, THEN conjunct2, rule_format,
        of "\<lambda>this. destructure [''a'', ''b''] (Return Undefined)"] rd
    by (simp add: new_state_def descriptor_of_def C_def service_class_def)
  ultimately show ?thesis using rd out by blast
qed

text \<open>
  The claim as written fails when the exotic context has the name: the factory is not
  invoked. It fails for the read that a transient makes of itself through a dependency:
  that read ends in the circular error and invokes nothing. And it fails for a factory
  that returns the same value at every call: the factory is invoked at every read, and
  the instance is not new.
\<close>

theorem transient_counterexample:
  "map_option lifetime (map_of mixed_registry ''c'') = Some Transient
   \<and> map_option (\<lambda>(r, s). (r, calls s))
       (context_get 30 mixed_registry (Some [''c'' \<mapsto> Str ''x'']) (StringKey ''c'') new_state)
     = Some (Inr (Str ''x''), [])
   \<and> map_option lifetime (map_of cyclic_registry ''b'') = Some Transient
   \<and> map_option (\<lambda>(r, s). (r, calls s))
       (context_get 20 cyclic_registry None (StringKey ''b'') new_state)
     = Some (Inl (ResolveError ''/(unnamed)/ Invalid service resolution: [b] -> a -> [b]''),
             [''b'', ''a''])
   \<and> map_option lifetime (map_of undefined_registry ''k'') = Some Transient
   \<and> map_option (\<lambda>(rs, p). (rs, provider_calls p, provider_allocated p))
        (reads 10 [(0, None, StringKey ''k''), (0, None, StringKey ''k'')]
           (two_scopes undefined_registry))
     = Some ([Inr (Str ''shared''), Inr (Str ''shared'')], [''k'', ''k''], 0)"
  by (simp add: mixed_registry_def undefined_registry_def cyclic_registry_def engine_defs
      provider_defs eval_nat_numeral)

end
